theory Spec2Isabelle
  imports Complex_Main
begin

section \<open>Values\<close>

text \<open>
  The kernels of \<^verbatim>\<open>triton_train_nanoGPT.py\<close> compute on floating-point lanes.
  A lane value is modelled as an extended real with a not-a-number element: the special
  values \<open>+inf\<close>, \<open>-inf\<close> and \<open>nan\<close> behave as in IEEE 754, and arithmetic on finite
  values is exact (no rounding, one zero).  The literals of the source
  (\<^verbatim>\<open>1e-6\<close>, \<^verbatim>\<open>1e-8\<close>, \<^verbatim>\<open>0.044715\<close>, ...) are read as the decimal fractions they
  are written as.  Overflow of the float32 range is modelled in the GELU kernel, whose
  products grow like the cube of the input (see \<open>f32\<close> below).  The softmax path works
  on inputs clamped to \<open>[-100, 100]\<close>, where no operation leaves the range; the
  layer-norm kernel is modelled without overflow, so what is proved about it is about
  rows whose sums and squares stay in the range.
\<close>

datatype fp = Fin real | PInf | NInf | NaN

fun fp_neg :: "fp \<Rightarrow> fp" where
  "fp_neg (Fin a) = Fin (- a)"
| "fp_neg PInf = NInf"
| "fp_neg NInf = PInf"
| "fp_neg NaN = NaN"

fun fp_add :: "fp \<Rightarrow> fp \<Rightarrow> fp" where
  "fp_add (Fin a) (Fin b) = Fin (a + b)"
| "fp_add (Fin a) PInf = PInf"
| "fp_add (Fin a) NInf = NInf"
| "fp_add PInf (Fin b) = PInf"
| "fp_add PInf PInf = PInf"
| "fp_add PInf NInf = NaN"
| "fp_add NInf (Fin b) = NInf"
| "fp_add NInf PInf = NaN"
| "fp_add NInf NInf = NInf"
| "fp_add NaN y = NaN"
| "fp_add x NaN = NaN"

definition fp_sub :: "fp \<Rightarrow> fp \<Rightarrow> fp" where
  "fp_sub x y = fp_add x (fp_neg y)"

text \<open>The sign of an infinite product or quotient; a zero counts as positive.\<close>

definition signed_inf :: "bool \<Rightarrow> fp" where
  "signed_inf positive = (if positive then PInf else NInf)"

fun fp_mul :: "fp \<Rightarrow> fp \<Rightarrow> fp" where
  "fp_mul (Fin a) (Fin b) = Fin (a * b)"
| "fp_mul (Fin a) PInf = (if a = 0 then NaN else signed_inf (0 < a))"
| "fp_mul (Fin a) NInf = (if a = 0 then NaN else signed_inf (a < 0))"
| "fp_mul PInf (Fin b) = (if b = 0 then NaN else signed_inf (0 < b))"
| "fp_mul NInf (Fin b) = (if b = 0 then NaN else signed_inf (b < 0))"
| "fp_mul PInf PInf = PInf"
| "fp_mul PInf NInf = NInf"
| "fp_mul NInf PInf = NInf"
| "fp_mul NInf NInf = PInf"
| "fp_mul NaN y = NaN"
| "fp_mul x NaN = NaN"

fun fp_div :: "fp \<Rightarrow> fp \<Rightarrow> fp" where
  "fp_div (Fin a) (Fin b) =
     (if b = 0 then (if a = 0 then NaN else signed_inf (0 < a)) else Fin (a / b))"
| "fp_div (Fin a) PInf = Fin 0"
| "fp_div (Fin a) NInf = Fin 0"
| "fp_div PInf (Fin b) = signed_inf (0 \<le> b)"
| "fp_div NInf (Fin b) = signed_inf (b < 0)"
| "fp_div PInf PInf = NaN"
| "fp_div PInf NInf = NaN"
| "fp_div NInf PInf = NaN"
| "fp_div NInf NInf = NaN"
| "fp_div NaN y = NaN"
| "fp_div x NaN = NaN"

fun fp_exp :: "fp \<Rightarrow> fp" where
  "fp_exp (Fin a) = Fin (exp a)"
| "fp_exp PInf = PInf"
| "fp_exp NInf = Fin 0"
| "fp_exp NaN = NaN"

fun fp_sqrt :: "fp \<Rightarrow> fp" where
  "fp_sqrt (Fin a) = (if a < 0 then NaN else Fin (sqrt a))"
| "fp_sqrt PInf = PInf"
| "fp_sqrt NInf = NaN"
| "fp_sqrt NaN = NaN"

fun fp_abs :: "fp \<Rightarrow> fp" where
  "fp_abs (Fin a) = Fin \<bar>a\<bar>"
| "fp_abs PInf = PInf"
| "fp_abs NInf = PInf"
| "fp_abs NaN = NaN"

text \<open>
  The combining function of \<^verbatim>\<open>tl.max\<close>: the larger operand, and the other operand when
  one of them is not a number.
\<close>

fun fp_max :: "fp \<Rightarrow> fp \<Rightarrow> fp" where
  "fp_max NaN y = y"
| "fp_max x NaN = x"
| "fp_max PInf y = PInf"
| "fp_max x PInf = PInf"
| "fp_max NInf y = y"
| "fp_max x NInf = x"
| "fp_max (Fin a) (Fin b) = Fin (max a b)"

text \<open>
  The float32 range.  The largest finite float32 is \<^verbatim>\<open>(2 - 2**-23) * 2**127\<close>; the exact
  result of an operation becomes the infinity of its sign when, rounded to nearest, it
  reaches \<^verbatim>\<open>2**128\<close>, that is when its magnitude is at least half a unit in the last
  place, \<^verbatim>\<open>2**103\<close>, above the largest finite float32.  Below that the result is kept
  exact.
\<close>

definition float32_max :: real where
  "float32_max = (2 - 1 / 2 ^ 23) * 2 ^ 127"

definition float32_overflow :: real where
  "float32_overflow = float32_max + 2 ^ 103"

fun f32 :: "fp \<Rightarrow> fp" where
  "f32 (Fin a) =
     (if float32_overflow \<le> a then PInf else if a \<le> - float32_overflow then NInf else Fin a)"
| "f32 PInf = PInf"
| "f32 NInf = NInf"
| "f32 NaN = NaN"

definition fp32_add :: "fp \<Rightarrow> fp \<Rightarrow> fp" where
  "fp32_add x y = f32 (fp_add x y)"

definition fp32_mul :: "fp \<Rightarrow> fp \<Rightarrow> fp" where
  "fp32_mul x y = f32 (fp_mul x y)"

definition fp32_div :: "fp \<Rightarrow> fp \<Rightarrow> fp" where
  "fp32_div x y = f32 (fp_div x y)"

fun is_finite :: "fp \<Rightarrow> bool" where
  "is_finite (Fin a) = True"
| "is_finite x = False"

fun the_real :: "fp \<Rightarrow> real" where
  "the_real (Fin a) = a"
| "the_real x = 0"

section \<open>The kernel launch model\<close>

text \<open>
  A buffer is the memory behind a pointer: a value at every element offset.  The
  pointer expression \<^verbatim>\<open>ptr + offsets\<close> of the source is the list of offsets into the
  buffer of \<^verbatim>\<open>ptr\<close>.  Input and output are distinct buffers, as the wrappers allocate
  the output afresh.
\<close>

type_synonym buffer = "nat \<Rightarrow> fp"

definition tl_arange :: "nat \<Rightarrow> nat \<Rightarrow> nat list" where
  "tl_arange start end = [start..<end]"

text \<open>\<^verbatim>\<open>tl.load(ptrs, mask=mask, other=other)\<close>: a masked-out lane reads \<open>other\<close>.\<close>

definition tl_load :: "buffer \<Rightarrow> nat list \<Rightarrow> bool list \<Rightarrow> fp \<Rightarrow> fp list" where
  "tl_load mem ptrs msk other = map (\<lambda>(p, m). if m then mem p else other) (zip ptrs msk)"

text \<open>\<^verbatim>\<open>tl.store(ptrs, value, mask=mask)\<close>: only lanes whose mask is set are written.\<close>

fun tl_store :: "buffer \<Rightarrow> nat list \<Rightarrow> fp list \<Rightarrow> bool list \<Rightarrow> buffer" where
  "tl_store mem (p # ptrs) (v # values) (m # msk) =
     tl_store (if m then mem(p := v) else mem) ptrs values msk"
| "tl_store mem ptrs values msk = mem"

text \<open>\<^verbatim>\<open>tl.sum(x, axis=0)\<close> and \<^verbatim>\<open>tl.max(x, axis=0)\<close>: reductions over the lanes of a block.\<close>

definition tl_sum :: "fp list \<Rightarrow> fp" where
  "tl_sum xs = foldr fp_add xs (Fin 0)"

fun tl_max :: "fp list \<Rightarrow> fp" where
  "tl_max [] = NInf"
| "tl_max (x # xs) = fold fp_max xs x"

text \<open>
  \<^verbatim>\<open>kernel[grid](...)\<close>: one program instance per index of the grid.  The instances are
  independent; the model runs them in index order.
\<close>

definition launch :: "nat \<Rightarrow> (buffer \<Rightarrow> nat \<Rightarrow> buffer) \<Rightarrow> buffer \<Rightarrow> buffer" where
  "launch grid program out = fold (\<lambda>pid mem. program mem pid) [0..<grid] out"

text \<open>\<^verbatim>\<open>triton.cdiv(x, y)\<close> is \<^verbatim>\<open>(x + y - 1) // y\<close>.\<close>

definition cdiv :: "nat \<Rightarrow> nat \<Rightarrow> nat" where
  "cdiv x y = (x + y - 1) div y"

section \<open>The kernels\<close>

text \<open>
  Each kernel is the function one program instance runs: it takes the output buffer and
  the program index \<^verbatim>\<open>tl.program_id(0)\<close> and returns the output buffer after the
  instance's store.
\<close>

definition softmax_kernel ::
  "buffer \<Rightarrow> nat \<Rightarrow> nat \<Rightarrow> nat \<Rightarrow> nat \<Rightarrow> buffer \<Rightarrow> nat \<Rightarrow> buffer" where
  "softmax_kernel input input_row_stride output_row_stride n_cols BLOCK_SIZE output pid =
     (let row_idx = pid;
          col_offsets = tl_arange 0 BLOCK_SIZE;
          lane_mask = map (\<lambda>c. c < n_cols) col_offsets;
          input_row_ptr = map (\<lambda>c. row_idx * input_row_stride + c) col_offsets;
          output_row_ptr = map (\<lambda>c. row_idx * output_row_stride + c) col_offsets;
          logits = tl_load input input_row_ptr lane_mask NInf;
          max_logits = tl_max logits;
          logits = map (\<lambda>v. fp_sub v max_logits) logits;
          exp_logits = map fp_exp logits;
          sum_exp_logits = fp_add (tl_sum exp_logits) (Fin (1 / 10 ^ 6));
          softmax_output = map (\<lambda>e. fp_div e sum_exp_logits) exp_logits
      in tl_store output output_row_ptr softmax_output lane_mask)"

definition layer_norm_kernel ::
  "buffer \<Rightarrow> buffer \<Rightarrow> buffer \<Rightarrow> nat \<Rightarrow> real \<Rightarrow> nat \<Rightarrow> buffer \<Rightarrow> nat \<Rightarrow> buffer" where
  "layer_norm_kernel x weight bias N eps BLOCK_SIZE y pid =
     (let row_idx = pid;
          cols = tl_arange 0 BLOCK_SIZE;
          lane_mask = map (\<lambda>c. c < N) cols;
          x_offset = map (\<lambda>c. row_idx * N + c) cols;
          xv = tl_load x x_offset lane_mask (Fin 0);
          mean = fp_div (tl_sum xv) (Fin (real N));
          x_centered = map (\<lambda>v. fp_sub v mean) xv;
          var = fp_div (tl_sum (map (\<lambda>v. fp_mul v v) x_centered)) (Fin (real N));
          rstd = fp_div (Fin 1) (fp_sqrt (fp_add var (Fin eps)));
          w = tl_load weight cols lane_mask (Fin 1);
          b = tl_load bias cols lane_mask (Fin 0);
          yv = map (\<lambda>(xc, wv, bv). fp_add (fp_mul (fp_mul xc rstd) wv) bv)
                 (zip x_centered (zip w b))
      in tl_store y x_offset yv lane_mask)"

text \<open>
  The constant the source names \<^verbatim>\<open>sqrt_2_over_pi\<close>: the literal
  \<^verbatim>\<open>0.7978845608028654\<close>, the double nearest to the square root of \<open>2/\<pi>\<close>.
\<close>

definition sqrt_2_over_pi :: real where
  "sqrt_2_over_pi = 7978845608028654 / 10 ^ 16"

text \<open>
  The body of the GELU kernel on one lane.  Its products grow like the cube of the input,
  so every operation is a float32 operation: a result outside the float32 range is
  infinite, and \<open>inf / inf\<close> is not a number.
\<close>

definition gelu_lane :: "fp \<Rightarrow> fp" where
  "gelu_lane x =
     (let coeff = fp32_mul (Fin sqrt_2_over_pi)
                    (fp32_add (Fin 1) (fp32_mul (fp32_mul (Fin (44715 / 10 ^ 6)) x) x))
      in fp32_mul (fp32_mul (Fin (1 / 2)) x)
           (fp32_add (Fin 1)
              (fp32_div (fp32_mul x coeff) (fp32_add (Fin 1) (fp_abs (fp32_mul x coeff))))))"

text \<open>
  The load of the GELU kernel gives no \<^verbatim>\<open>other\<close>, so a masked-out lane holds an
  unspecified value: the parameter \<open>undef\<close>.
\<close>

definition gelu_kernel :: "fp \<Rightarrow> buffer \<Rightarrow> nat \<Rightarrow> nat \<Rightarrow> buffer \<Rightarrow> nat \<Rightarrow> buffer" where
  "gelu_kernel undef x n_elements BLOCK_SIZE y pid =
     (let offsets = map (\<lambda>c. pid * BLOCK_SIZE + c) (tl_arange 0 BLOCK_SIZE);
          lane_mask = map (\<lambda>off. off < n_elements) offsets;
          xv = tl_load x offsets lane_mask undef;
          yv = map gelu_lane xv
      in tl_store y offsets yv lane_mask)"

section \<open>Tensors and the host wrappers\<close>

text \<open>
  A tensor is its shape and its elements in row-major order (a contiguous tensor; strides
  of other layouts are not modelled).  A well-formed tensor has as many elements as its
  shape says.
\<close>

record tensor =
  shape :: "nat list"
  data :: "fp list"

definition numel :: "tensor \<Rightarrow> nat" where
  "numel t = prod_list (shape t)"

definition wf_tensor :: "tensor \<Rightarrow> bool" where
  "wf_tensor t = (length (data t) = prod_list (shape t))"

datatype error = AssertionError | ValueError | IndexError | RuntimeError | CompilationError

text \<open>
  The buffer a tensor's data pointer addresses.  Offsets past the tensor are not part of
  it; they read as \<open>NaN\<close> here.
\<close>

definition buffer_of :: "fp list \<Rightarrow> buffer" where
  "buffer_of xs = (\<lambda>i. if i < length xs then xs ! i else NaN)"

text \<open>Reading a tensor of \<open>n\<close> elements back from its buffer.\<close>

definition read_back :: "buffer \<Rightarrow> nat \<Rightarrow> fp list" where
  "read_back mem n = map mem [0..<n]"

text \<open>
  \<^verbatim>\<open>t.reshape(-1, n)\<close> and \<^verbatim>\<open>t.view(-1, n)\<close> on a contiguous tensor of \<open>count\<close>
  elements: the shape \<open>[count / n, n]\<close>, and a runtime error when \<open>n\<close> is zero or does
  not divide \<open>count\<close>.
\<close>

definition reshape_rows :: "nat \<Rightarrow> nat \<Rightarrow> error + nat \<times> nat" where
  "reshape_rows count n =
     (if n = 0 \<or> count mod n \<noteq> 0 then Inl RuntimeError else Inr (count div n, n))"

text \<open>The Python slice \<^verbatim>\<open>s[-k:]\<close> of a tuple (\<^verbatim>\<open>s[-0:]\<close> is all of \<open>s\<close>).\<close>

definition py_suffix :: "'a list \<Rightarrow> nat \<Rightarrow> 'a list" where
  "py_suffix s k = (if k = 0 then s else drop (length s - k) s)"

subsection \<open>Layer normalisation\<close>

record TritonLayerNorm =
  normalized_shape :: "nat list"
  weight :: "fp list"
  bias :: "fp list"
  eps :: real

definition TritonLayerNorm_init :: "nat list \<Rightarrow> real \<Rightarrow> TritonLayerNorm" where
  "TritonLayerNorm_init ns e =
     \<lparr>normalized_shape = ns,
      weight = replicate (prod_list ns) (Fin 1),
      bias = replicate (prod_list ns) (Fin 0),
      eps = e\<rparr>"

text \<open>
  The grid and the block size of the launch in \<^verbatim>\<open>TritonLayerNorm.forward\<close>, for \<open>M\<close>
  rows.
\<close>

definition layer_norm_BLOCK_SIZE :: nat where
  "layer_norm_BLOCK_SIZE = 128"

definition layer_norm_grid :: "nat \<Rightarrow> nat" where
  "layer_norm_grid M = cdiv M layer_norm_BLOCK_SIZE"

text \<open>
  \<^verbatim>\<open>TritonLayerNorm.forward\<close>.  The first argument is the content of the memory that
  \<^verbatim>\<open>torch.empty_like\<close> returns: it is not initialised, so it is arbitrary.
\<close>

definition TritonLayerNorm_forward :: "buffer \<Rightarrow> TritonLayerNorm \<Rightarrow> tensor \<Rightarrow> error + tensor" where
  "TritonLayerNorm_forward empty_like self x =
     (if py_suffix (shape x) (length (normalized_shape self)) \<noteq> normalized_shape self
      then Inl AssertionError
      else if normalized_shape self = [] then Inl IndexError
      else case reshape_rows (numel x) (last (normalized_shape self)) of
        Inl e \<Rightarrow> Inl e
      | Inr (M, N) \<Rightarrow>
          let y = launch (layer_norm_grid M)
                    (layer_norm_kernel (buffer_of (data x)) (buffer_of (weight self))
                       (buffer_of (bias self)) N (eps self) layer_norm_BLOCK_SIZE)
                    empty_like
          in Inr \<lparr>shape = shape x, data = read_back y (numel x)\<rparr>)"

subsection \<open>Softmax\<close>

text \<open>\<^verbatim>\<open>x.clamp(lo, hi)\<close> on one element; not-a-number stays.\<close>

fun torch_clamp :: "real \<Rightarrow> real \<Rightarrow> fp \<Rightarrow> fp" where
  "torch_clamp lo hi (Fin a) = Fin (min (max a lo) hi)"
| "torch_clamp lo hi PInf = Fin hi"
| "torch_clamp lo hi NInf = Fin lo"
| "torch_clamp lo hi NaN = NaN"

text \<open>
  \<^verbatim>\<open>triton.next_power_of_2(n)\<close>: for \<open>n\<close> of at least 1 the smallest power of two that
  is at least \<open>n\<close>, found here by doubling; at 0 the library function returns 0 (it
  decrements, smears the bits to the right and increments).
\<close>

function power_of_2_from :: "nat \<Rightarrow> nat \<Rightarrow> nat" where
  "power_of_2_from p n = (if 0 < p \<and> p < n then power_of_2_from (2 * p) n else p)"
  by pat_completeness auto
termination
  by (relation "measure (\<lambda>(p, n). n - p)") auto

definition next_power_of_2 :: "nat \<Rightarrow> nat" where
  "next_power_of_2 n = (if n = 0 then 0 else power_of_2_from 1 n)"

text \<open>
  \<^verbatim>\<open>x.stride(0)\<close> of a contiguous \<open>[B, N]\<close> tensor.  A tensor of this theory is
  contiguous, and so are its clamped copy and the output allocated like it; what the
  launch does with other strides is \<open>TritonSoftmax_launch\<close> below.
\<close>

definition stride0 :: "nat \<Rightarrow> nat" where
  "stride0 N = max N 1"

text \<open>The rows of a \<open>[B, N]\<close> tensor, and \<^verbatim>\<open>t.sum(dim=-1)\<close> of one row.\<close>

definition rows_of :: "nat \<Rightarrow> nat \<Rightarrow> 'a list \<Rightarrow> 'a list list" where
  "rows_of B N d = map (\<lambda>r. take N (drop (r * N) d)) [0..<B]"

definition torch_sum :: "fp list \<Rightarrow> fp" where
  "torch_sum xs = foldr fp_add xs (Fin 0)"

text \<open>The two-dimensional shape \<^verbatim>\<open>TritonSoftmax.forward\<close> works on.\<close>

definition softmax_view :: "tensor \<Rightarrow> error + nat list" where
  "softmax_view x =
     (let original_shape = shape x
      in if length original_shape > 2
         then (case reshape_rows (numel x) (last original_shape) of
                 Inl e \<Rightarrow> Inl e
               | Inr (B, N) \<Rightarrow> Inr [B, N])
         else Inr original_shape)"

text \<open>The grid and the block size of the launch in \<^verbatim>\<open>TritonSoftmax.forward\<close>.\<close>

definition softmax_grid :: "nat \<Rightarrow> nat" where
  "softmax_grid B = B"

definition softmax_BLOCK_SIZE :: "nat \<Rightarrow> nat" where
  "softmax_BLOCK_SIZE N = next_power_of_2 N"

text \<open>
  Triton compiles \<^verbatim>\<open>tl.arange(0, BLOCK_SIZE)\<close> only for a block of at least one lane
  and of at most \<^verbatim>\<open>TRITON_MAX_TENSOR_NUMEL\<close> lanes.
\<close>

definition TRITON_MAX_TENSOR_NUMEL :: nat where
  "TRITON_MAX_TENSOR_NUMEL = 1048576"

text \<open>
  The launch statement of \<^verbatim>\<open>TritonSoftmax.forward\<close>,
  \<^verbatim>\<open>softmax_kernel[grid](y, x, x.stride(0), y.stride(0), N, BLOCK_SIZE=...)\<close>, for a
  \<open>[B, N]\<close> tensor: the memory of \<open>y\<close> and of \<open>x\<close> and their row strides are its
  arguments.  For a contiguous tensor both strides are \<open>stride0 N\<close>; for a transposed
  matrix, which \<^verbatim>\<open>clamp\<close> and \<^verbatim>\<open>empty_like\<close> leave transposed, they are 1.
\<close>

definition TritonSoftmax_launch ::
  "buffer \<Rightarrow> buffer \<Rightarrow> nat \<Rightarrow> nat \<Rightarrow> nat \<Rightarrow> nat \<Rightarrow> error + buffer" where
  "TritonSoftmax_launch y x x_stride0 y_stride0 B N =
     (if softmax_BLOCK_SIZE N = 0 \<or> TRITON_MAX_TENSOR_NUMEL < softmax_BLOCK_SIZE N
      then Inl CompilationError
      else Inr (launch (softmax_grid B)
                  (softmax_kernel x x_stride0 y_stride0 N (softmax_BLOCK_SIZE N)) y))"

text \<open>The post-processing of the wrapper on one row: add \<^verbatim>\<open>1e-8\<close>, divide by the sum.\<close>

definition renormalize :: "fp list \<Rightarrow> fp list" where
  "renormalize row =
     (let y = map (\<lambda>v. fp_add v (Fin (1 / 10 ^ 8))) row;
          s = torch_sum y
      in map (\<lambda>v. fp_div v s) y)"

text \<open>
  \<^verbatim>\<open>TritonSoftmax.forward\<close> on a contiguous tensor; \<open>empty_like\<close> is again the
  uninitialised output memory.  Unpacking \<^verbatim>\<open>B, N = x.shape\<close> raises a
  \<^verbatim>\<open>ValueError\<close> unless the shape has two entries.
\<close>

definition TritonSoftmax_forward :: "buffer \<Rightarrow> tensor \<Rightarrow> error + tensor" where
  "TritonSoftmax_forward empty_like x =
     (let original_shape = shape x
      in case softmax_view x of
           Inl e \<Rightarrow> Inl e
         | Inr s \<Rightarrow>
             let xc = map (torch_clamp (- 100) 100) (data x)
             in (case s of
                   [B, N] \<Rightarrow>
                     (case TritonSoftmax_launch empty_like (buffer_of xc)
                             (stride0 N) (stride0 N) B N of
                        Inl e \<Rightarrow> Inl e
                      | Inr y \<Rightarrow>
                          let y = rows_of B N (read_back y (B * N))
                          in Inr \<lparr>shape = original_shape,
                                  data = concat (map renormalize y)\<rparr>)
                 | _ \<Rightarrow> Inl ValueError))"

subsection \<open>GELU\<close>

definition gelu_BLOCK_SIZE :: nat where
  "gelu_BLOCK_SIZE = 1024"

definition gelu_grid :: "nat \<Rightarrow> nat" where
  "gelu_grid n_elements = cdiv n_elements gelu_BLOCK_SIZE"

text \<open>
  \<^verbatim>\<open>TritonGELU.forward\<close>; \<open>undef\<close> is what a masked-out lane of the kernel's load holds.
\<close>

definition TritonGELU_forward :: "fp \<Rightarrow> buffer \<Rightarrow> tensor \<Rightarrow> tensor" where
  "TritonGELU_forward undef empty_like x =
     (let n_elements = numel x;
          y = launch (gelu_grid n_elements)
                (gelu_kernel undef (buffer_of (data x)) n_elements gelu_BLOCK_SIZE)
                empty_like
      in \<lparr>shape = shape x, data = read_back y n_elements\<rparr>)"

section \<open>The lanes of a program instance\<close>

text \<open>
  The values a program instance holds between its loads and its store, as functions of the
  loaded lanes: the bodies of \<open>softmax_kernel\<close> and \<open>layer_norm_kernel\<close>.  A masked load
  of the block at \<open>base\<close> gives \<open>load_lanes\<close>.
\<close>

definition softmax_lanes :: "fp list \<Rightarrow> fp list" where
  "softmax_lanes logits =
     (let max_logits = tl_max logits;
          logits = map (\<lambda>v. fp_sub v max_logits) logits;
          exp_logits = map fp_exp logits;
          sum_exp_logits = fp_add (tl_sum exp_logits) (Fin (1 / 10 ^ 6))
      in map (\<lambda>e. fp_div e sum_exp_logits) exp_logits)"

definition layer_norm_lanes :: "fp list \<Rightarrow> fp list \<Rightarrow> fp list \<Rightarrow> nat \<Rightarrow> real \<Rightarrow> fp list" where
  "layer_norm_lanes xv w b N e =
     (let mean = fp_div (tl_sum xv) (Fin (real N));
          x_centered = map (\<lambda>v. fp_sub v mean) xv;
          var = fp_div (tl_sum (map (\<lambda>v. fp_mul v v) x_centered)) (Fin (real N));
          rstd = fp_div (Fin 1) (fp_sqrt (fp_add var (Fin e)))
      in map (\<lambda>(xc, wv, bv). fp_add (fp_mul (fp_mul xc rstd) wv) bv)
           (zip x_centered (zip w b)))"

definition load_lanes :: "buffer \<Rightarrow> nat \<Rightarrow> nat \<Rightarrow> nat \<Rightarrow> fp \<Rightarrow> fp list" where
  "load_lanes mem base n B other = map (\<lambda>c. if c < n then mem (base + c) else other) [0..<B]"

text \<open>The lanes of the layer-norm instance for row \<open>r\<close> of the wrapper's launch.\<close>

definition layer_norm_row :: "TritonLayerNorm \<Rightarrow> tensor \<Rightarrow> nat \<Rightarrow> nat \<Rightarrow> fp list" where
  "layer_norm_row self x N r =
     layer_norm_lanes (load_lanes (buffer_of (data x)) (r * N) N layer_norm_BLOCK_SIZE (Fin 0))
       (load_lanes (buffer_of (weight self)) 0 N layer_norm_BLOCK_SIZE (Fin 1))
       (load_lanes (buffer_of (bias self)) 0 N layer_norm_BLOCK_SIZE (Fin 0)) N (eps self)"

section \<open>Stores and launches\<close>

lemma tl_store_frame:
  "(\<And>i. i < length ptrs \<Longrightarrow> i < length vals \<Longrightarrow> i < length msk \<Longrightarrow> msk ! i \<Longrightarrow> ptrs ! i \<noteq> a)
   \<Longrightarrow> tl_store mem ptrs vals msk a = mem a"
proof (induction mem ptrs vals msk rule: tl_store.induct)
  case (1 mem p ptrs v vals m msk)
  have hd: "m \<Longrightarrow> p \<noteq> a" using "1.prems"[of 0] by simp
  have "tl_store (if m then mem(p := v) else mem) ptrs vals msk a = (if m then mem(p := v) else mem) a"
  proof (rule "1.IH")
    fix i assume "i < length ptrs" "i < length vals" "i < length msk" "msk ! i"
    then show "ptrs ! i \<noteq> a" using "1.prems"[of "Suc i"] by simp
  qed
  then show ?case using hd by (cases m) auto
qed simp_all

lemma tl_store_hit:
  "distinct ptrs \<Longrightarrow> length vals = length ptrs \<Longrightarrow> length msk = length ptrs \<Longrightarrow>
   i < length ptrs \<Longrightarrow> msk ! i \<Longrightarrow> tl_store mem ptrs vals msk (ptrs ! i) = vals ! i"
proof (induction mem ptrs vals msk arbitrary: i rule: tl_store.induct)
  case (1 mem p ptrs v vals m msk)
  show ?case
  proof (cases i)
    case 0
    have "tl_store (if m then mem(p := v) else mem) ptrs vals msk p = (if m then mem(p := v) else mem) p"
      using "1.prems"(1) by (intro tl_store_frame) (auto simp: in_set_conv_nth)
    then show ?thesis using 0 "1.prems" by simp
  next
    case (Suc j)
    then show ?thesis using "1.prems" "1.IH"[of j] by simp
  qed
qed simp_all

lemma launch_Suc: "launch (Suc g) program out = program (launch g program out) g"
  by (simp add: launch_def)

lemma launch_0: "launch 0 program out = out"
  by (simp add: launch_def)

subsection \<open>GELU\<close>

lemma gelu_kernel_apply:
  "gelu_kernel undef x n B y pid a =
     (if pid * B \<le> a \<and> a < pid * B + B \<and> a < n then gelu_lane (x a) else y a)"
proof -
  let ?offs = "map (\<lambda>c. pid * B + c) [0..<B]"
  let ?msk = "map (\<lambda>off. off < n) ?offs"
  let ?vals = "map gelu_lane (tl_load x ?offs ?msk undef)"
  have k: "gelu_kernel undef x n B y pid = tl_store y ?offs ?vals ?msk"
    by (simp add: gelu_kernel_def tl_arange_def Let_def)
  show ?thesis
  proof (cases "pid * B \<le> a \<and> a < pid * B + B \<and> a < n")
    case True
    define i where "i = a - pid * B"
    have i: "i < B" "a = pid * B + i" using True by (auto simp: i_def)
    have d: "distinct ?offs" by (simp add: distinct_map inj_on_def)
    have h: "tl_store y ?offs ?vals ?msk (?offs ! i) = ?vals ! i"
      using i True by (intro tl_store_hit[OF d]) (simp_all add: tl_load_def)
    have e1: "?offs ! i = a" using i by simp
    have e2: "?vals ! i = gelu_lane (x a)" using i True by (simp add: tl_load_def)
    have "tl_store y ?offs ?vals ?msk a = gelu_lane (x a)"
      using h unfolding e1 e2 .
    with True show ?thesis unfolding k by (simp only: simp_thms if_True)
  next
    case False
    have "tl_store y ?offs ?vals ?msk a = y a"
      using False by (intro tl_store_frame) auto
    with False show ?thesis unfolding k by (simp only: simp_thms if_False)
  qed
qed

lemma gelu_launch_apply:
  "launch g (gelu_kernel undef x n B) y a =
     (if a < g * B \<and> a < n then gelu_lane (x a) else y a)"
proof (induction g)
  case 0
  then show ?case by (simp add: launch_0)
next
  case (Suc g)
  have "launch (Suc g) (gelu_kernel undef x n B) y a =
        gelu_kernel undef x n B (launch g (gelu_kernel undef x n B) y) g a"
    by (simp only: launch_Suc)
  also have "\<dots> = (if g * B \<le> a \<and> a < g * B + B \<and> a < n then gelu_lane (x a)
                    else launch g (gelu_kernel undef x n B) y a)"
    by (rule gelu_kernel_apply)
  finally show ?case using Suc.IH by auto
qed

lemma cdiv_covers: "0 < b \<Longrightarrow> n \<le> cdiv n b * b"
proof -
  assume b: "0 < b"
  have "n + b - 1 < (n + b - 1) div b * b + b"
    using b by (metis add.commute div_mult_mod_eq mod_less_divisor add_less_cancel_left mult.commute)
  then show ?thesis using b by (simp add: cdiv_def)
qed

lemma buffer_of_nth: "i < length xs \<Longrightarrow> buffer_of xs i = xs ! i"
  by (simp add: buffer_of_def)

lemma gelu_forward_nth:
  assumes "wf_tensor x" "i < numel x"
  shows "data (TritonGELU_forward undef y0 x) ! i = gelu_lane (data x ! i)"
proof -
  have "numel x \<le> gelu_grid (numel x) * gelu_BLOCK_SIZE"
    unfolding gelu_grid_def by (rule cdiv_covers) (simp add: gelu_BLOCK_SIZE_def)
  then have "i < gelu_grid (numel x) * gelu_BLOCK_SIZE" using assms by simp
  moreover have "buffer_of (data x) i = data x ! i"
    using assms by (simp add: buffer_of_nth wf_tensor_def numel_def)
  ultimately show ?thesis
    using assms by (simp add: TritonGELU_forward_def Let_def read_back_def gelu_launch_apply)
qed

lemma float32_max_value: "float32_max = 340282346638528859811704183484516925440"
  by (simp add: float32_max_def)

lemma float32_overflow_value: "float32_overflow = 340282356779733661637539395458142568448"
  by (simp add: float32_overflow_def float32_max_value)

lemma f32_Fin: "\<bar>a\<bar> \<le> float32_max \<Longrightarrow> f32 (Fin a) = Fin a"
  by (auto simp: float32_max_value float32_overflow_value)

lemma f32_above: "float32_overflow \<le> a \<Longrightarrow> f32 (Fin a) = PInf"
  by simp

lemma f32_ge:
  assumes "0 \<le> b" "b \<le> a"
  shows "f32 (Fin a) = PInf \<or> (\<exists>v. f32 (Fin a) = Fin v \<and> b \<le> v)"
  using assms by (auto simp: float32_overflow_value)

declare f32.simps(1) [simp del]

lemma gelu_lane_0: "gelu_lane (Fin 0) = Fin 0"
  by (simp add: gelu_lane_def Let_def fp32_mul_def fp32_add_def fp32_div_def f32_Fin
      float32_max_value sqrt_2_over_pi_def)

text \<open>
  Up to \<open>2 * 10\<^sup>1\<^sup>3\<close> in magnitude no operation of the lane leaves the float32 range:
  the largest intermediate, \<open>x * coeff\<close>, stays below \<open>2.9 * 10\<^sup>3\<^sup>8\<close>.
\<close>

lemma gelu_lane_Fin:
  assumes "\<bar>r\<bar> \<le> 2 * 10 ^ 13"
  shows "gelu_lane (Fin r) =
     Fin (0.5 * r * (1 + (r * (sqrt_2_over_pi * (1 + 0.044715 * r\<^sup>2)))
                         / (1 + \<bar>r * (sqrt_2_over_pi * (1 + 0.044715 * r\<^sup>2))\<bar>)))"
proof -
  define R :: real where "R = 2 * 10 ^ 13"
  define k :: real where "k = 44715 / 10 ^ 6"
  define c :: real where "c = sqrt_2_over_pi"
  define M :: real where "M = float32_max"
  have r: "\<bar>r\<bar> \<le> R" using assms by (simp add: R_def)
  have R0: "0 \<le> R" by (simp add: R_def)
  have k0: "0 \<le> k" and c0: "0 \<le> c" by (simp_all add: k_def c_def sqrt_2_over_pi_def)
  have M1: "k * R \<le> M" "k * R * R \<le> M" "1 + k * R * R \<le> M" "R * (c * (1 + k * R * R)) + 1 \<le> M"
    "R \<le> M" "c * (1 + k * R * R) \<le> M"
    by (simp_all add: k_def R_def M_def c_def float32_max_value sqrt_2_over_pi_def)
  have rr: "r * r \<le> R * R"
    using r by (metis abs_mult_self_eq abs_ge_zero mult_mono R0)
  have rr0: "0 \<le> r * r" by simp
  define a1 where "a1 = k * r"
  define a2 where "a2 = a1 * r"
  define a3 where "a3 = 1 + a2"
  define co where "co = c * a3"
  define xc where "xc = r * co"
  define den where "den = 1 + \<bar>xc\<bar>"
  define q where "q = xc / den"
  define s where "s = 1 + q"
  define h where "h = 1 / 2 * r"
  have b1: "\<bar>a1\<bar> \<le> M"
  proof -
    have "\<bar>a1\<bar> = k * \<bar>r\<bar>" using k0 by (simp add: a1_def abs_mult)
    also have "\<dots> \<le> k * R" using r k0 by (rule mult_left_mono)
    finally show ?thesis using M1(1) by simp
  qed
  have a2e: "a2 = k * (r * r)" by (simp add: a2_def a1_def)
  have a2_0: "0 \<le> a2" unfolding a2e using k0 rr0 by (rule mult_nonneg_nonneg)
  have a2_le: "a2 \<le> k * R * R"
  proof -
    have "k * (r * r) \<le> k * (R * R)" using rr k0 by (rule mult_left_mono)
    then show ?thesis by (simp add: a2e mult.assoc)
  qed
  have b2: "\<bar>a2\<bar> \<le> M" using a2_0 a2_le M1(2) by simp
  have a3_0: "1 \<le> a3" using a2_0 by (simp add: a3_def)
  have a3_le: "a3 \<le> 1 + k * R * R" using a2_le by (simp add: a3_def)
  have b3: "\<bar>a3\<bar> \<le> M" using a3_0 a3_le M1(3) by simp
  have co_0: "0 \<le> co" unfolding co_def using c0 a3_0 by simp
  have co_le: "co \<le> c * (1 + k * R * R)"
    unfolding co_def using a3_le c0 by (rule mult_left_mono)
  have b4: "\<bar>co\<bar> \<le> M" using co_0 co_le M1(6) by simp
  have xc_le: "\<bar>xc\<bar> \<le> R * (c * (1 + k * R * R))"
  proof -
    have "\<bar>xc\<bar> = \<bar>r\<bar> * co" using co_0 by (simp add: xc_def abs_mult)
    also have "\<dots> \<le> R * (c * (1 + k * R * R))"
      using r co_le by (intro mult_mono) (simp_all add: co_0 R0)
    finally show ?thesis .
  qed
  have b5: "\<bar>xc\<bar> \<le> M" using xc_le M1(4) by simp
  have den_1: "1 \<le> den" by (simp add: den_def)
  have b6: "\<bar>den\<bar> \<le> M" using xc_le M1(4) den_1 by (simp add: den_def)
  have q_le: "\<bar>q\<bar> \<le> 1"
  proof -
    have "\<bar>xc\<bar> \<le> den" by (simp add: den_def)
    then show ?thesis using den_1 by (simp add: q_def)
  qed
  have b7: "\<bar>q\<bar> \<le> M" using q_le M1(5) R0 by (simp add: R_def)
  have s_b: "0 \<le> s" "s \<le> 2" using q_le by (simp_all add: s_def)
  have b8: "\<bar>s\<bar> \<le> M" using s_b M1(5) by (simp add: R_def)
  have h_le: "\<bar>h\<bar> \<le> R / 2" using r by (simp add: h_def)
  have b9: "\<bar>h\<bar> \<le> M" using h_le M1(5) R0 by simp
  have b10: "\<bar>h * s\<bar> \<le> M"
  proof -
    have "\<bar>h * s\<bar> = \<bar>h\<bar> * s" using s_b by (simp add: abs_mult)
    also have "\<dots> \<le> R / 2 * 2" using h_le s_b by (intro mult_mono) (simp_all add: R0)
    finally show ?thesis using M1(5) by simp
  qed
  have e1: "fp32_mul (Fin k) (Fin r) = Fin a1"
    using b1 by (simp add: fp32_mul_def a1_def M_def f32_Fin)
  have e2: "fp32_mul (Fin a1) (Fin r) = Fin a2"
    using b2 by (simp add: fp32_mul_def a2_def M_def f32_Fin)
  have e3: "fp32_add (Fin 1) (Fin a2) = Fin a3"
    using b3 by (simp add: fp32_add_def a3_def M_def f32_Fin)
  have e4: "fp32_mul (Fin c) (Fin a3) = Fin co"
    using b4 by (simp add: fp32_mul_def co_def M_def f32_Fin)
  have e5: "fp32_mul (Fin r) (Fin co) = Fin xc"
    using b5 by (simp add: fp32_mul_def xc_def M_def f32_Fin)
  have e6: "fp32_add (Fin 1) (fp_abs (Fin xc)) = Fin den"
    using b6 by (simp add: fp32_add_def den_def M_def f32_Fin)
  have e7: "fp32_div (Fin xc) (Fin den) = Fin q"
    using b7 den_1 by (simp add: fp32_div_def q_def M_def f32_Fin)
  have e8: "fp32_add (Fin 1) (Fin q) = Fin s"
    using b8 by (simp add: fp32_add_def s_def M_def f32_Fin)
  have e9: "fp32_mul (Fin (1 / 2)) (Fin r) = Fin h"
    using b9 by (simp add: fp32_mul_def h_def M_def f32_Fin)
  have e10: "fp32_mul (Fin h) (Fin s) = Fin (h * s)"
    using b10 by (simp add: fp32_mul_def M_def f32_Fin)
  have "gelu_lane (Fin r) = Fin (h * s)"
    unfolding gelu_lane_def Let_def k_def[symmetric] c_def[symmetric]
    by (simp only: e1 e2 e3 e4 e5 e6 e7 e8 e9 e10)
  also have "h * s = 0.5 * r * (1 + (r * (sqrt_2_over_pi * (1 + 0.044715 * r\<^sup>2)))
                         / (1 + \<bar>r * (sqrt_2_over_pi * (1 + 0.044715 * r\<^sup>2))\<bar>))"
    by (simp add: h_def s_def q_def den_def xc_def co_def a3_def a2_def a1_def k_def c_def
        power2_eq_square mult.assoc)
  finally show ?thesis .
qed

text \<open>
  From \<open>3 * 10\<^sup>1\<^sup>3\<close> in magnitude on, \<open>x * coeff\<close> is beyond the float32 range, or an
  earlier product is: \<open>x * coeff\<close> is infinite, so is \<open>1 + |x * coeff|\<close>, and their quotient
  is not a number.
\<close>

lemma gelu_xc_large_pos:
  assumes "3 * 10 ^ 13 \<le> r"
  shows "fp32_mul (Fin r) (fp32_mul (Fin sqrt_2_over_pi)
           (fp32_add (Fin 1) (fp32_mul (fp32_mul (Fin (44715 / 10 ^ 6)) (Fin r)) (Fin r))))
         = PInf"
proof -
  define R :: real where "R = 3 * 10 ^ 13"
  define k :: real where "k = 44715 / 10 ^ 6"
  define c :: real where "c = sqrt_2_over_pi"
  have r: "R \<le> r" using assms by (simp add: R_def)
  have R0: "0 < R" by (simp add: R_def)
  have r0: "0 < r" using r R0 by linarith
  have k0: "0 < k" and c0: "0 < c" by (simp_all add: k_def c_def sqrt_2_over_pi_def)
  have big: "float32_overflow \<le> R * (c * (k * R * R))"
    by (simp add: k_def R_def c_def float32_overflow_value sqrt_2_over_pi_def)
  define a1 where "a1 = fp32_mul (Fin k) (Fin r)"
  define a2 where "a2 = fp32_mul a1 (Fin r)"
  define a3 where "a3 = fp32_add (Fin 1) a2"
  define co where "co = fp32_mul (Fin c) a3"
  define xc where "xc = fp32_mul (Fin r) co"
  have kr: "k * R \<le> k * r" using r k0 by simp
  have kR0: "0 \<le> k * R" using k0 R0 by simp
  have kRR0: "0 \<le> k * R * R" using k0 R0 by simp
  have ckRR0: "0 \<le> c * (k * R * R)" using k0 R0 c0 by simp
  have p1: "a1 = PInf \<or> (\<exists>v. a1 = Fin v \<and> k * R \<le> v)"
    unfolding a1_def fp32_mul_def fp_mul.simps using kR0 kr by (rule f32_ge)
  have p2: "a2 = PInf \<or> (\<exists>v. a2 = Fin v \<and> k * R * R \<le> v)"
    using p1
  proof
    assume "a1 = PInf"
    then have "a2 = PInf" using r0 by (simp add: a2_def fp32_mul_def signed_inf_def)
    then show ?thesis by simp
  next
    assume "\<exists>v. a1 = Fin v \<and> k * R \<le> v"
    then obtain v where v: "a1 = Fin v" "k * R \<le> v" by blast
    have "k * R * R \<le> v * r"
      using v(2) r kR0 R0 by (intro mult_mono) simp_all
    with kRR0 show ?thesis
      unfolding a2_def v(1) fp32_mul_def fp_mul.simps by (rule f32_ge)
  qed
  have p3: "a3 = PInf \<or> (\<exists>v. a3 = Fin v \<and> k * R * R \<le> v)"
    using p2
  proof
    assume "a2 = PInf"
    then show ?thesis by (simp add: a3_def fp32_add_def)
  next
    assume "\<exists>v. a2 = Fin v \<and> k * R * R \<le> v"
    then obtain v where v: "a2 = Fin v" "k * R * R \<le> v" by blast
    have "k * R * R \<le> 1 + v" using v(2) by simp
    with kRR0 show ?thesis
      unfolding a3_def v(1) fp32_add_def fp_add.simps by (rule f32_ge)
  qed
  have p4: "co = PInf \<or> (\<exists>v. co = Fin v \<and> c * (k * R * R) \<le> v)"
    using p3
  proof
    assume "a3 = PInf"
    then show ?thesis using c0 by (simp add: co_def fp32_mul_def signed_inf_def)
  next
    assume "\<exists>v. a3 = Fin v \<and> k * R * R \<le> v"
    then obtain v where v: "a3 = Fin v" "k * R * R \<le> v" by blast
    have "c * (k * R * R) \<le> c * v" using v(2) c0 by simp
    with ckRR0 show ?thesis
      unfolding co_def v(1) fp32_mul_def fp_mul.simps by (rule f32_ge)
  qed
  have p5: "xc = PInf"
    using p4
  proof
    assume "co = PInf"
    then show ?thesis using r0 by (simp add: xc_def fp32_mul_def signed_inf_def)
  next
    assume "\<exists>v. co = Fin v \<and> c * (k * R * R) \<le> v"
    then obtain v where v: "co = Fin v" "c * (k * R * R) \<le> v" by blast
    have "R * (c * (k * R * R)) \<le> r * v"
      using v(2) r ckRR0 R0 by (intro mult_mono) simp_all
    then have "float32_overflow \<le> r * v" using big by linarith
    then show ?thesis
      unfolding xc_def v(1) fp32_mul_def fp_mul.simps by (rule f32_above)
  qed
  show ?thesis
    using p5 unfolding xc_def co_def a3_def a2_def a1_def k_def c_def .
qed

lemma fp32_mul_neg_left: "fp32_mul (fp_neg x) y = fp_neg (fp32_mul x y)"
  unfolding fp32_mul_def
  by (cases x; cases y) (auto simp: signed_inf_def float32_overflow_value f32.simps)

lemma fp32_mul_neg_right: "fp32_mul x (fp_neg y) = fp_neg (fp32_mul x y)"
  unfolding fp32_mul_def
  by (cases x; cases y) (auto simp: signed_inf_def float32_overflow_value f32.simps)

lemma fp_neg_neg: "fp_neg (fp_neg x) = x"
  by (cases x) simp_all

lemma fp32_add_NaN: "fp32_add x NaN = NaN"
  by (cases x) (simp_all add: fp32_add_def)

lemma fp32_mul_NaN: "fp32_mul x NaN = NaN"
  by (cases x) (simp_all add: fp32_mul_def)

lemma gelu_lane_large:
  assumes "3 * 10 ^ 13 \<le> \<bar>r\<bar>"
  shows "gelu_lane (Fin r) = NaN"
proof -
  define xc where "xc = (\<lambda>x. fp32_mul x (fp32_mul (Fin sqrt_2_over_pi)
           (fp32_add (Fin 1) (fp32_mul (fp32_mul (Fin (44715 / 10 ^ 6)) x) x))))"
  have g: "gelu_lane x = fp32_mul (fp32_mul (Fin (1 / 2)) x)
        (fp32_add (Fin 1) (fp32_div (xc x) (fp32_add (Fin 1) (fp_abs (xc x)))))" for x
    by (simp add: gelu_lane_def Let_def xc_def)
  have inf: "xc (Fin r) = PInf \<or> xc (Fin r) = NInf"
  proof (cases "0 \<le> r")
    case True
    then have "3 * 10 ^ 13 \<le> r" using assms by simp
    then have "xc (Fin r) = PInf" unfolding xc_def by (rule gelu_xc_large_pos)
    then show ?thesis by simp
  next
    case False
    then have "3 * 10 ^ 13 \<le> - r" using assms by simp
    then have p: "xc (Fin (- r)) = PInf" unfolding xc_def by (rule gelu_xc_large_pos)
    have n: "Fin r = fp_neg (Fin (- r))" by simp
    have "xc (Fin r) = fp_neg (xc (Fin (- r)))"
      unfolding xc_def n
      by (simp only: fp32_mul_neg_left fp32_mul_neg_right fp_neg_neg)
    then show ?thesis unfolding p by simp
  qed
  then have "fp32_div (xc (Fin r)) (fp32_add (Fin 1) (fp_abs (xc (Fin r)))) = NaN"
    by (auto simp: fp32_add_def fp32_div_def)
  then show ?thesis
    unfolding g by (simp only: fp32_add_NaN fp32_mul_NaN)
qed

subsection \<open>Row kernels\<close>

lemma tl_load_lanes:
  "tl_load mem (map (\<lambda>c. base + c) [0..<B]) (map (\<lambda>c. c < n) [0..<B]) other
     = load_lanes mem base n B other"
  by (rule nth_equalityI) (simp_all add: tl_load_def load_lanes_def)

lemma length_load_lanes [simp]: "length (load_lanes mem base n B other) = B"
  by (simp add: load_lanes_def)

lemma length_softmax_lanes [simp]: "length (softmax_lanes xs) = length xs"
  by (simp add: softmax_lanes_def Let_def)

lemma length_layer_norm_lanes [simp]:
  "length (layer_norm_lanes xv w b N e) = min (length xv) (min (length w) (length b))"
  by (simp add: layer_norm_lanes_def Let_def)

lemma softmax_kernel_store:
  "softmax_kernel input is os n B out pid =
     tl_store out (map (\<lambda>c. pid * os + c) [0..<B])
       (softmax_lanes (load_lanes input (pid * is) n B NInf)) (map (\<lambda>c. c < n) [0..<B])"
  by (simp add: softmax_kernel_def Let_def tl_arange_def softmax_lanes_def tl_load_lanes)

lemma layer_norm_kernel_store:
  "layer_norm_kernel x w b N e B y pid =
     tl_store y (map (\<lambda>c. pid * N + c) [0..<B])
       (layer_norm_lanes (load_lanes x (pid * N) N B (Fin 0)) (load_lanes w 0 N B (Fin 1))
          (load_lanes b 0 N B (Fin 0)) N e)
       (map (\<lambda>c. c < N) [0..<B])"
  using tl_load_lanes[of w 0 B N "Fin 1"] tl_load_lanes[of b 0 B N "Fin 0"]
  by (simp add: layer_norm_kernel_def Let_def tl_arange_def layer_norm_lanes_def tl_load_lanes)

text \<open>A block store at the offsets \<open>base + [0..<B]\<close> under the mask \<open>c < n\<close>.\<close>

lemma block_store_apply:
  assumes "length vals = B"
  shows "tl_store out (map (\<lambda>c. base + c) [0..<B]) vals (map (\<lambda>c. c < n) [0..<B]) a =
     (if base \<le> a \<and> a < base + min n B then vals ! (a - base) else out a)"
proof (cases "base \<le> a \<and> a < base + min n B")
  case True
  let ?offs = "map (\<lambda>c. base + c) [0..<B]"
  let ?msk = "map (\<lambda>c. c < n) [0..<B]"
  have i: "a - base < B" "a - base < n" "base + (a - base) = a" using True by auto
  have d: "distinct ?offs" by (simp add: distinct_map inj_on_def)
  have h: "tl_store out ?offs vals ?msk (?offs ! (a - base)) = vals ! (a - base)"
    using i assms by (intro tl_store_hit[OF d]) simp_all
  have e1: "?offs ! (a - base) = a" using i by simp
  have "tl_store out ?offs vals ?msk a = vals ! (a - base)"
    using h unfolding e1 .
  with True show ?thesis by (simp only: simp_thms if_True)
next
  case False
  have "tl_store out (map (\<lambda>c. base + c) [0..<B]) vals (map (\<lambda>c. c < n) [0..<B]) a = out a"
    using False by (intro tl_store_frame) auto
  with False show ?thesis by (simp only: simp_thms if_False)
qed

lemma softmax_kernel_apply:
  "softmax_kernel input is os n B out pid a =
     (if pid * os \<le> a \<and> a < pid * os + min n B
      then softmax_lanes (load_lanes input (pid * is) n B NInf) ! (a - pid * os) else out a)"
  unfolding softmax_kernel_store by (rule block_store_apply) simp

lemma layer_norm_kernel_apply:
  "layer_norm_kernel x w b N e B y pid a =
     (if pid * N \<le> a \<and> a < pid * N + min N B
      then layer_norm_lanes (load_lanes x (pid * N) N B (Fin 0)) (load_lanes w 0 N B (Fin 1))
          (load_lanes b 0 N B (Fin 0)) N e ! (a - pid * N) else y a)"
  unfolding layer_norm_kernel_store by (rule block_store_apply) simp

lemma launch_rows:
  assumes K: "\<And>y pid a. K y pid a = (if pid * s \<le> a \<and> a < pid * s + w then V pid (a - pid * s) else y a)"
    and ws: "w \<le> s" and s: "0 < s"
  shows "launch g K y a = (if a div s < g \<and> a mod s < w then V (a div s) (a mod s) else y a)"
proof (induction g)
  case 0
  then show ?case by (simp add: launch_0)
next
  case (Suc g)
  have step: "launch (Suc g) K y a =
      (if g * s \<le> a \<and> a < g * s + w then V g (a - g * s) else launch g K y a)"
    by (simp only: launch_Suc K)
  show ?case
  proof (cases "g * s \<le> a \<and> a < g * s + w")
    case True
    then have "a < g * s + s" using ws by simp
    with True have d: "a div s = g"
      by (metis (no_types, lifting) div_nat_eqI mult.commute mult_Suc_right add.commute)
    have m: "a mod s = a - g * s" using d by (metis minus_mult_div_eq_mod mult.commute)
    have "a - g * s < w" using True by arith
    then show ?thesis using True d m step by simp
  next
    case False
    have "\<not> (a div s = g \<and> a mod s < w)"
    proof
      assume h: "a div s = g \<and> a mod s < w"
      then have "a = g * s + a mod s" by (metis div_mult_mod_eq)
      with h False show False by simp
    qed
    then show ?thesis using False step Suc.IH by (auto simp: less_Suc_eq)
  qed
qed

subsection \<open>Layer-norm lanes\<close>

lemma tl_sum_Fin: "tl_sum (map Fin rs) = Fin (sum_list rs)"
  by (induction rs) (simp_all add: tl_sum_def)

lemma fp_add_zero_left [simp]: "fp_add (Fin 0) v = v"
  by (cases v) simp_all

lemma fp_sub_Fin [simp]: "fp_sub (Fin a) (Fin b) = Fin (a - b)"
  by (simp add: fp_sub_def)

lemma layer_norm_lanes_finite:
  assumes N: "0 < N" and j: "j < length rs" "j < length w" "j < length b"
    and v: "0 < sum_list (map (\<lambda>r. (r - sum_list rs / real N)\<^sup>2) rs) / real N + e"
  shows "layer_norm_lanes (map Fin rs) w b N e ! j =
     fp_add (fp_mul (Fin ((rs ! j - sum_list rs / real N)
        * (1 / sqrt (sum_list (map (\<lambda>r. (r - sum_list rs / real N)\<^sup>2) rs) / real N + e)))) (w ! j)) (b ! j)"
proof -
  define mu where "mu = sum_list rs / real N"
  define var where "var = sum_list (map (\<lambda>r. (r - mu)\<^sup>2) rs) / real N"
  have mean: "fp_div (tl_sum (map Fin rs)) (Fin (real N)) = Fin mu"
    using N by (simp add: tl_sum_Fin mu_def)
  have cen: "map (\<lambda>v. fp_sub v (Fin mu)) (map Fin rs) = map Fin (map (\<lambda>r. r - mu) rs)"
    by simp
  have sq: "map (\<lambda>v. fp_mul v v) (map Fin (map (\<lambda>r. r - mu) rs)) = map Fin (map (\<lambda>r. (r - mu)\<^sup>2) rs)"
    by (simp add: power2_eq_square)
  have varr: "fp_div (tl_sum (map Fin (map (\<lambda>r. (r - mu)\<^sup>2) rs))) (Fin (real N)) = Fin var"
    using N unfolding tl_sum_Fin var_def by simp
  have pos: "0 < var + e" using v by (simp add: var_def mu_def)
  then have sp: "0 < sqrt (var + e)" by simp
  have rstd: "fp_div (Fin 1) (fp_sqrt (fp_add (Fin var) (Fin e))) = Fin (1 / sqrt (var + e))"
    using pos sp by simp
  have "layer_norm_lanes (map Fin rs) w b N e =
      map (\<lambda>(xc, wv, bv). fp_add (fp_mul (fp_mul xc (Fin (1 / sqrt (var + e)))) wv) bv)
        (zip (map Fin (map (\<lambda>r. r - mu) rs)) (zip w b))"
    unfolding layer_norm_lanes_def Let_def mean cen sq varr rstd ..
  then show ?thesis using j by (simp add: mu_def var_def)
qed

lemma load_lanes_split:
  "n \<le> B \<Longrightarrow> load_lanes mem base n B other = map (\<lambda>c. mem (base + c)) [0..<n] @ replicate (B - n) other"
  by (rule nth_equalityI) (auto simp: load_lanes_def nth_append)



subsection \<open>Softmax lanes\<close>

lemma fp_sub_NaN [simp]: "fp_sub NaN m = NaN"
  by (simp add: fp_sub_def)

lemma fp_div_NaN_right [simp]: "fp_div v NaN = NaN"
  by (cases v) simp_all

lemma fp_add_NaN_right [simp]: "fp_add v NaN = NaN"
  by (cases v) simp_all

lemma fp_add_zero_right [simp]: "fp_add v (Fin 0) = v"
  by (cases v) simp_all

lemma tl_sum_Cons: "tl_sum (x # xs) = fp_add x (tl_sum xs)"
  by (simp add: tl_sum_def)

lemma tl_sum_Nil: "tl_sum [] = Fin 0"
  by (simp add: tl_sum_def)

lemma tl_sum_NaN: "NaN \<in> set es \<Longrightarrow> tl_sum es = NaN"
  by (induction es) (auto simp: tl_sum_Cons)

lemma tl_sum_append_zeros: "tl_sum (es @ replicate k (Fin 0)) = tl_sum es"
proof (induction es)
  case Nil
  show ?case by (induction k) (simp_all add: tl_sum_Cons tl_sum_Nil)
next
  case (Cons e es)
  then show ?case by (simp add: tl_sum_Cons)
qed

lemma fp_max_cases: "fp_max a b = a \<or> fp_max a b = b"
  by (cases a; cases b) (simp_all add: max_def)

lemma fold_fp_max_in: "fold fp_max xs a \<in> insert a (set xs)"
proof (induction xs arbitrary: a)
  case Nil
  show ?case by simp
next
  case (Cons x xs)
  have "fold fp_max xs (fp_max x a) \<in> insert (fp_max x a) (set xs)" by (rule Cons.IH)
  then show ?case using fp_max_cases[of x a] by auto
qed

lemma tl_max_in_set: "xs \<noteq> [] \<Longrightarrow> tl_max xs \<in> set xs"
  using fold_fp_max_in by (cases xs) auto

lemma fold_fp_max_NInf: "a \<noteq> NaN \<Longrightarrow> fold fp_max (replicate k NInf) a = a"
proof (induction k)
  case 0
  show ?case by simp
next
  case (Suc k)
  have "fp_max NInf a = a" using Suc.prems by (cases a) simp_all
  then show ?case using Suc by simp
qed

lemma tl_max_append: "xs \<noteq> [] \<Longrightarrow> tl_max (xs @ ys) = fold fp_max ys (tl_max xs)"
  by (cases xs) simp_all

lemma tl_max_pad:
  assumes "xs \<noteq> []" and "NaN \<notin> set xs"
  shows "tl_max (xs @ replicate k NInf) = tl_max xs"
proof -
  have "tl_max xs \<noteq> NaN" using tl_max_in_set[OF assms(1)] assms(2) by metis
  then show ?thesis unfolding tl_max_append[OF assms(1)] by (rule fold_fp_max_NInf)
qed

lemma softmax_lanes_nth:
  "j < length xs \<Longrightarrow> softmax_lanes xs ! j =
     fp_div (fp_exp (fp_sub (xs ! j) (tl_max xs)))
       (fp_add (tl_sum (map (\<lambda>v. fp_exp (fp_sub v (tl_max xs))) xs)) (Fin (1 / 10 ^ 6)))"
  by (simp add: softmax_lanes_def Let_def comp_def)

lemma exp_sum_NaN:
  assumes "i < length xs" and "fp_exp (fp_sub (xs ! i) m) = NaN"
  shows "fp_add (tl_sum (map (\<lambda>v. fp_exp (fp_sub v m)) xs)) c = NaN"
proof -
  have "NaN \<in> set (map (\<lambda>v. fp_exp (fp_sub v m)) xs)"
    using assms by (metis (no_types, lifting) length_map nth_map nth_mem)
  then show ?thesis by (simp add: tl_sum_NaN)
qed

lemma softmax_lanes_pad:
  assumes ne: "xs \<noteq> []" and j: "j < length xs"
  shows "softmax_lanes (xs @ replicate k NInf) ! j = softmax_lanes xs ! j"
proof -
  let ?ys = "xs @ replicate k NInf"
  let ?m = "tl_max xs" and ?M = "tl_max ?ys"
  have step: "softmax_lanes ?ys ! j = softmax_lanes xs ! j"
    if "\<exists>i<length xs. fp_exp (fp_sub (xs ! i) ?m) = NaN \<and> fp_exp (fp_sub (xs ! i) ?M) = NaN"
  proof -
    from that obtain i where i: "i < length xs" "fp_exp (fp_sub (xs ! i) ?m) = NaN"
      "fp_exp (fp_sub (xs ! i) ?M) = NaN" by blast
    have "fp_exp (fp_sub (?ys ! i) ?M) = NaN" using i by (simp add: nth_append)
    then have 1: "fp_add (tl_sum (map (\<lambda>v. fp_exp (fp_sub v ?M)) ?ys)) (Fin (1 / 10 ^ 6)) = NaN"
      using i(1) by (intro exp_sum_NaN[of i]) simp_all
    have 2: "fp_add (tl_sum (map (\<lambda>v. fp_exp (fp_sub v ?m)) xs)) (Fin (1 / 10 ^ 6)) = NaN"
      using i by (intro exp_sum_NaN[of i]) simp_all
    have jy: "j < length ?ys" using j by simp
    have "softmax_lanes ?ys ! j = NaN"
      unfolding softmax_lanes_nth[OF jy] 1 by simp
    moreover have "softmax_lanes xs ! j = NaN"
      unfolding softmax_lanes_nth[OF j] 2 by simp
    ultimately show ?thesis by simp
  qed
  show ?thesis
  proof (cases "NaN \<in> set xs")
    case True
    then obtain i where "i < length xs" "xs ! i = NaN" by (auto simp: in_set_conv_nth)
    then show ?thesis by (intro step) auto
  next
    case False
    then have M: "?M = ?m" using ne by (simp add: tl_max_pad)
    have min: "?m \<in> set xs" using ne by (rule tl_max_in_set)
    show ?thesis
    proof (cases "?m = NInf")
      case True
      with min obtain i where "i < length xs" "xs ! i = NInf" by (auto simp: in_set_conv_nth)
      then show ?thesis using True M by (intro step) (auto simp: fp_sub_def)
    next
      case nn: False
      have mn: "?m \<noteq> NaN" using min False by auto
      have fill: "fp_exp (fp_sub NInf ?m) = Fin 0"
        using nn mn by (cases ?m) (simp_all add: fp_sub_def)
      have es: "map (\<lambda>v. fp_exp (fp_sub v ?m)) ?ys
          = map (\<lambda>v. fp_exp (fp_sub v ?m)) xs @ replicate k (Fin 0)"
        by (simp add: fill)
      have jy: "j < length ?ys" using j by simp
      have yj: "?ys ! j = xs ! j" using j by (simp add: nth_append)
      show ?thesis
        unfolding softmax_lanes_nth[OF jy] softmax_lanes_nth[OF j] M es tl_sum_append_zeros yj ..
    qed
  qed
qed

subsection \<open>The worked softmax rows\<close>

lemma next_power_of_2_3: "next_power_of_2 3 = 4"
  by (simp add: next_power_of_2_def)

lemma upt_0_4: "[0..<4] = [0, 1, 2, 3]"
  by (simp add: upt_rec)

lemma upt_0_3: "[0..<3] = [0, 1, 2]"
  by (simp add: upt_rec)

lemma exp_minus_one_bounds: "3678 / 10000 < exp (- 1 :: real) \<and> exp (- 1 :: real) < 3680 / 10000"
proof -
  obtain t :: real where t: "\<bar>t\<bar> \<le> \<bar>- 1 :: real\<bar>"
    and e: "exp (- 1 :: real) = (\<Sum>m<8. ((- 1) ^ m) / fact m) + (exp t / fact 8) * (- 1) ^ 8"
    using Maclaurin_exp_le[of "- 1" 8] by blast
  have s: "(\<Sum>m<8. ((- 1::real) ^ m) / fact m) = 103 / 280"
    by (simp add: lessThan_nat_numeral fact_numeral)
  have "t \<le> 1" using t by simp
  then have "exp t \<le> exp 1" by simp
  then have u: "exp t \<le> 3" using exp_le by linarith
  have l: "0 < exp t" by simp
  have r: "exp (- 1 :: real) = 103 / 280 + exp t / 40320"
    unfolding e s by (simp add: fact_numeral)
  show ?thesis using u l unfolding r by linarith
qed

lemma ratio_within:
  fixes a S t d :: real
  assumes "0 < S" and "(t - d) * S \<le> a" and "a \<le> (t + d) * S"
  shows "\<bar>a / S - t\<bar> \<le> d"
proof -
  have "t - d \<le> a / S" using assms(1,2) by (simp add: pos_le_divide_eq)
  moreover have "a / S \<le> t + d" using assms(1,3) by (simp add: pos_divide_le_eq)
  ultimately show ?thesis by (simp add: abs_le_iff)
qed

lemma softmax_scenario_arith:
  fixes u :: real
  assumes "3678 / 10000 < u" and "u < 3680 / 10000"
  shows "\<bar>u * u / (u * u + (u + 1) + 1 / 10 ^ 6) - 900 / 10000\<bar> \<le> 1 / 1000
       \<and> \<bar>u / (u * u + (u + 1) + 1 / 10 ^ 6) - 2447 / 10000\<bar> \<le> 1 / 1000
       \<and> \<bar>1 / (u * u + (u + 1) + 1 / 10 ^ 6) - 6652 / 10000\<bar> \<le> 1 / 1000"
proof -
  define q where "q = u * u"
  define S where "S = q + (u + 1) + 1 / 10 ^ 6"
  have u0: "0 < u" using assms by simp
  have "3678 / 10000 * (3678 / 10000) < u * u"
    using assms by (intro mult_strict_mono) simp_all
  then have ql: "1352 / 10000 < q" by (simp add: q_def)
  have "u * u < 3680 / 10000 * (3680 / 10000)"
    using assms u0 by (intro mult_strict_mono) simp_all
  then have qh: "q < 1355 / 10000" by (simp add: q_def)
  have Sl: "15030 / 10000 < S" and Sh: "S < 15036 / 10000"
    using ql qh assms by (simp_all add: S_def)
  have Sp: "0 < S" using Sl by simp
  have 1: "\<bar>q / S - 900 / 10000\<bar> \<le> 1 / 1000"
    using ql qh Sl Sh by (intro ratio_within[OF Sp]) simp_all
  have 2: "\<bar>u / S - 2447 / 10000\<bar> \<le> 1 / 1000"
    using assms Sl Sh by (intro ratio_within[OF Sp]) simp_all
  have 3: "\<bar>1 / S - 6652 / 10000\<bar> \<le> 1 / 1000"
    using Sl Sh by (intro ratio_within[OF Sp]) simp_all
  show ?thesis using 1 2 3 unfolding S_def q_def by simp
qed

lemma exp_minus_two: "exp (- 2 :: real) = exp (- 1) * exp (- 1)"
  by (simp add: mult_exp_exp)

lemma softmax_scenario_values:
  "softmax_kernel (buffer_of [Fin 1, Fin 2, Fin 3]) irs ors 3 4 out 0 0
      = Fin (exp (- 1) * exp (- 1) / (exp (- 1) * exp (- 1) + (exp (- 1) + 1) + 1 / 10 ^ 6))
   \<and> softmax_kernel (buffer_of [Fin 1, Fin 2, Fin 3]) irs ors 3 4 out 0 1
      = Fin (exp (- 1) / (exp (- 1) * exp (- 1) + (exp (- 1) + 1) + 1 / 10 ^ 6))
   \<and> softmax_kernel (buffer_of [Fin 1, Fin 2, Fin 3]) irs ors 3 4 out 0 2
      = Fin (1 / (exp (- 1) * exp (- 1) + (exp (- 1) + 1) + 1 / 10 ^ 6))"
proof -
  have pos: "exp (- 1 :: real) * exp (- 1) + (exp (- 1) + 1) + 1 / 10 ^ 6 \<noteq> 0"
    by (smt (verit) exp_gt_zero mult_pos_pos zero_less_divide_1_iff zero_less_numeral zero_less_power)
  have lanes: "softmax_lanes [Fin 1, Fin 2, Fin 3, NInf]
     = [Fin (exp (- 1) * exp (- 1) / (exp (- 1) * exp (- 1) + (exp (- 1) + 1) + 1 / 10 ^ 6)),
        Fin (exp (- 1) / (exp (- 1) * exp (- 1) + (exp (- 1) + 1) + 1 / 10 ^ 6)),
        Fin (1 / (exp (- 1) * exp (- 1) + (exp (- 1) + 1) + 1 / 10 ^ 6)),
        Fin 0]"
    using pos by (simp add: softmax_lanes_def Let_def fp_sub_def tl_sum_def exp_minus_two)
  have ld: "load_lanes (buffer_of [Fin 1, Fin 2, Fin 3]) 0 3 4 NInf = [Fin 1, Fin 2, Fin 3, NInf]"
    by (simp add: load_lanes_def upt_0_4 buffer_of_def)
  show ?thesis
    by (simp add: softmax_kernel_apply ld lanes)
qed

subsection \<open>The layer-norm wrapper\<close>

lemma layer_norm_launch_apply:
  assumes "0 < N"
  shows "launch g (layer_norm_kernel (buffer_of (data x)) (buffer_of (weight self))
            (buffer_of (bias self)) N (eps self) layer_norm_BLOCK_SIZE) y0 a =
     (if a div N < g \<and> a mod N < min N layer_norm_BLOCK_SIZE
      then layer_norm_row self x N (a div N) ! (a mod N) else y0 a)"
  unfolding layer_norm_row_def
  by (rule launch_rows[where s = N and w = "min N layer_norm_BLOCK_SIZE"])
     (simp_all add: layer_norm_kernel_apply assms)

lemma layer_norm_forward_data:
  assumes "py_suffix (shape x) (length (normalized_shape self)) = normalized_shape self"
    and "normalized_shape self \<noteq> []" and "0 < last (normalized_shape self)"
    and "numel x mod last (normalized_shape self) = 0"
  shows "TritonLayerNorm_forward y0 self x =
     Inr \<lparr>shape = shape x,
          data = map (\<lambda>a. if a div last (normalized_shape self)
                              < layer_norm_grid (numel x div last (normalized_shape self))
                            \<and> a mod last (normalized_shape self)
                              < min (last (normalized_shape self)) layer_norm_BLOCK_SIZE
                          then layer_norm_row self x (last (normalized_shape self))
                                 (a div last (normalized_shape self))
                               ! (a mod last (normalized_shape self))
                          else y0 a) [0..<numel x]\<rparr>"
  using assms
  by (simp add: TritonLayerNorm_forward_def reshape_rows_def Let_def read_back_def
      layer_norm_launch_apply)

lemma upt_0_8: "[0..<8] = [0, 1, 2, 3, 4, 5, 6, 7]"
  by (simp add: upt_rec)

lemma layer_norm_grid_2: "layer_norm_grid 2 = 1"
  by (simp add: layer_norm_grid_def cdiv_def layer_norm_BLOCK_SIZE_def)

lemma layer_norm_two_rows_lanes:
  assumes "j < 4"
  shows "layer_norm_row (TritonLayerNorm_init [4] (1 / 10 ^ 5))
      \<lparr>shape = [2, 4], data = [Fin 1, Fin 2, Fin 3, Fin 4, Fin 5, Fin 6, Fin 7, Fin 8]\<rparr> 4 0 ! j
     = Fin (([1, 2, 3, 4] ! j - 5 / 2) * (1 / sqrt (195 + 1 / 10 ^ 5)))"
proof -
  define rs :: "real list" where "rs = [1, 2, 3, 4] @ replicate 124 0"
  have xl: "load_lanes (buffer_of [Fin 1, Fin 2, Fin 3, Fin 4, Fin 5, Fin 6, Fin 7, Fin 8]) 0 4
              layer_norm_BLOCK_SIZE (Fin 0) = map Fin rs"
    by (simp add: load_lanes_split layer_norm_BLOCK_SIZE_def rs_def upt_rec buffer_of_def
        map_replicate_const[symmetric] del: map_replicate_const)
  have s: "sum_list rs = 10" by (simp add: rs_def sum_list_replicate)
  have mu: "sum_list rs / real 4 = 5 / 2" by (simp add: s)
  have sq: "sum_list (map (\<lambda>r. (r - 5 / 2)\<^sup>2) rs) = 780"
    by (simp add: rs_def sum_list_replicate power2_eq_square map_replicate_const)
  have var: "sum_list (map (\<lambda>r. (r - sum_list rs / real 4)\<^sup>2) rs) / real 4 = 195"
    unfolding mu sq by simp
  have pos: "0 < sum_list (map (\<lambda>r. (r - sum_list rs / real 4)\<^sup>2) rs) / real 4 + 1 / 10 ^ 5"
    unfolding var by simp
  have jl: "j < length rs" using assms by (simp add: rs_def)
  have rj: "rs ! j = [1, 2, 3, 4] ! j"
    unfolding rs_def using assms by (subst nth_append) simp
  have w: "load_lanes (buffer_of (replicate 4 (Fin 1))) 0 4 layer_norm_BLOCK_SIZE (Fin 1) ! j = Fin 1"
    using assms by (simp add: load_lanes_def layer_norm_BLOCK_SIZE_def buffer_of_def)
  have b: "load_lanes (buffer_of (replicate 4 (Fin 0))) 0 4 layer_norm_BLOCK_SIZE (Fin 0) ! j = Fin 0"
    using assms by (simp add: load_lanes_def layer_norm_BLOCK_SIZE_def buffer_of_def)
  have "layer_norm_lanes (map Fin rs)
          (load_lanes (buffer_of (replicate 4 (Fin 1))) 0 4 layer_norm_BLOCK_SIZE (Fin 1))
          (load_lanes (buffer_of (replicate 4 (Fin 0))) 0 4 layer_norm_BLOCK_SIZE (Fin 0))
          4 (1 / 10 ^ 5) ! j
      = fp_add (fp_mul (Fin ((rs ! j - sum_list rs / real 4)
        * (1 / sqrt (sum_list (map (\<lambda>r. (r - sum_list rs / real 4)\<^sup>2) rs) / real 4 + 1 / 10 ^ 5))))
          (load_lanes (buffer_of (replicate 4 (Fin 1))) 0 4 layer_norm_BLOCK_SIZE (Fin 1) ! j))
          (load_lanes (buffer_of (replicate 4 (Fin 0))) 0 4 layer_norm_BLOCK_SIZE (Fin 0) ! j)"
    using assms jl pos
    by (intro layer_norm_lanes_finite) (simp_all add: layer_norm_BLOCK_SIZE_def)
  also have "\<dots> = Fin (([1, 2, 3, 4] ! j - 5 / 2) * (1 / sqrt (195 + 1 / 10 ^ 5)))"
    unfolding w b mu rj sq by simp
  finally show ?thesis
    by (simp add: layer_norm_row_def TritonLayerNorm_init_def xl)
qed

subsection \<open>The softmax wrapper\<close>

lemma power_of_2_from_ge: "0 < p \<Longrightarrow> n \<le> power_of_2_from p n"
proof (induction p n rule: power_of_2_from.induct)
  case (1 p n)
  show ?case
  proof (cases "p < n")
    case True
    then have "power_of_2_from p n = power_of_2_from (2 * p) n"
      using "1.prems" by (subst power_of_2_from.simps) simp
    moreover have "n \<le> power_of_2_from (2 * p) n"
      using True "1.prems" by (intro "1.IH") simp_all
    ultimately show ?thesis by simp
  next
    case False
    then have "power_of_2_from p n = p" by (subst power_of_2_from.simps) simp
    then show ?thesis using False by simp
  qed
qed

lemma power_of_2_from_power: "\<exists>k. power_of_2_from (2 ^ i) n = 2 ^ k"
proof (induction "2 ^ i :: nat" n arbitrary: i rule: power_of_2_from.induct)
  case (1 n)
  show ?case
  proof (cases "(2::nat) ^ i < n")
    case True
    then have "power_of_2_from (2 ^ i) n = power_of_2_from (2 ^ Suc i) n"
      by (subst power_of_2_from.simps) simp
    moreover have "\<exists>k. power_of_2_from (2 ^ Suc i) n = 2 ^ k"
      using True by (intro "1.hyps") simp_all
    ultimately show ?thesis by simp
  next
    case False
    then have "power_of_2_from (2 ^ i) n = 2 ^ i" by (subst power_of_2_from.simps) simp
    then show ?thesis by blast
  qed
qed

lemma power_of_2_from_least:
  "n \<le> 2 ^ m \<Longrightarrow> i \<le> m \<Longrightarrow> power_of_2_from (2 ^ i) n \<le> 2 ^ m"
proof (induction "2 ^ i :: nat" n arbitrary: i rule: power_of_2_from.induct)
  case (1 n)
  show ?case
  proof (cases "(2::nat) ^ i < n")
    case True
    then have e: "power_of_2_from (2 ^ i) n = power_of_2_from (2 ^ Suc i) n"
      by (subst power_of_2_from.simps) simp
    have "(2::nat) ^ i < 2 ^ m" using True "1.prems"(1) by (rule less_le_trans)
    then have im: "i < m" by simp
    have "power_of_2_from (2 ^ Suc i) n \<le> 2 ^ m"
      using True "1.prems" im by (intro "1.hyps") simp_all
    then show ?thesis using e by simp
  next
    case False
    then have "power_of_2_from (2 ^ i) n = 2 ^ i" by (subst power_of_2_from.simps) simp
    then show ?thesis using "1.prems" by simp
  qed
qed

lemma next_power_of_2_ge: "n \<le> next_power_of_2 n"
proof (cases "n = 0")
  case True
  then show ?thesis by simp
next
  case False
  have "n \<le> power_of_2_from 1 n" by (rule power_of_2_from_ge) simp
  then show ?thesis using False by (simp add: next_power_of_2_def)
qed

lemma next_power_of_2_power: "0 < n \<Longrightarrow> \<exists>k. next_power_of_2 n = 2 ^ k"
  unfolding next_power_of_2_def using power_of_2_from_power[of 0 n] by simp

lemma next_power_of_2_least: "n \<le> 2 ^ m \<Longrightarrow> next_power_of_2 n \<le> 2 ^ m"
  unfolding next_power_of_2_def using power_of_2_from_least[of n m 0] by simp

lemma softmax_BLOCK_SIZE_compiles:
  assumes "0 < N" and "N \<le> TRITON_MAX_TENSOR_NUMEL"
  shows "softmax_BLOCK_SIZE N \<noteq> 0" and "softmax_BLOCK_SIZE N \<le> TRITON_MAX_TENSOR_NUMEL"
proof -
  show "softmax_BLOCK_SIZE N \<noteq> 0"
    using assms(1) next_power_of_2_ge[of N] by (simp add: softmax_BLOCK_SIZE_def)
  have "N \<le> 2 ^ 20" using assms(2) by (simp add: TRITON_MAX_TENSOR_NUMEL_def)
  then have "next_power_of_2 N \<le> 2 ^ 20" by (rule next_power_of_2_least)
  then show "softmax_BLOCK_SIZE N \<le> TRITON_MAX_TENSOR_NUMEL"
    by (simp add: softmax_BLOCK_SIZE_def TRITON_MAX_TENSOR_NUMEL_def)
qed

lemma softmax_launch_compiles:
  assumes "0 < N" and "N \<le> TRITON_MAX_TENSOR_NUMEL"
  shows "TritonSoftmax_launch y x x_stride0 y_stride0 B N =
           Inr (launch (softmax_grid B)
                  (softmax_kernel x x_stride0 y_stride0 N (softmax_BLOCK_SIZE N)) y)"
  using softmax_BLOCK_SIZE_compiles[OF assms] by (simp add: TritonSoftmax_launch_def)

lemma softmax_view_numel:
  assumes "softmax_view x = Inr [B, N]"
  shows "B * N = numel x"
proof (cases "length (shape x) > 2")
  case True
  then have "reshape_rows (numel x) (last (shape x)) = Inr (B, N)"
    using assms by (auto simp: softmax_view_def Let_def split: sum.splits)
  then show ?thesis
    by (auto simp: reshape_rows_def split: if_splits)
next
  case False
  then have "shape x = [B, N]" using assms by (simp add: softmax_view_def Let_def)
  then show ?thesis by (simp add: numel_def)
qed

lemma softmax_forward_launch:
  assumes "softmax_view x = Inr [B, N]" and "0 < N" and "N \<le> TRITON_MAX_TENSOR_NUMEL"
  shows "TritonSoftmax_forward y0 x =
     Inr \<lparr>shape = shape x,
          data = concat (map renormalize (rows_of B N (read_back
            (launch (softmax_grid B)
               (softmax_kernel (buffer_of (map (torch_clamp (- 100) 100) (data x)))
                  (stride0 N) (stride0 N) N (softmax_BLOCK_SIZE N)) y0) (B * N))))\<rparr>"
  using assms(1)
  by (simp add: TritonSoftmax_forward_def Let_def softmax_launch_compiles[OF assms(2,3)])

lemma upt_0_2: "[0..<2] = [0, 1]"
  by (simp add: upt_rec)

lemma softmax_launch_fails:
  assumes "N = 0 \<or> TRITON_MAX_TENSOR_NUMEL < N"
  shows "TritonSoftmax_launch y x x_stride0 y_stride0 B N = Inl CompilationError"
proof -
  have ge: "N \<le> softmax_BLOCK_SIZE N"
    unfolding softmax_BLOCK_SIZE_def by (rule next_power_of_2_ge)
  have z: "softmax_BLOCK_SIZE 0 = 0"
    by (simp add: softmax_BLOCK_SIZE_def next_power_of_2_def)
  from assms have "softmax_BLOCK_SIZE N = 0 \<or> TRITON_MAX_TENSOR_NUMEL < softmax_BLOCK_SIZE N"
  proof
    assume "N = 0"
    then show ?thesis using z by simp
  next
    assume "TRITON_MAX_TENSOR_NUMEL < N"
    then have "TRITON_MAX_TENSOR_NUMEL < softmax_BLOCK_SIZE N" using ge by (rule less_le_trans)
    then show ?thesis by simp
  qed
  then show ?thesis unfolding TritonSoftmax_launch_def by (simp only: if_True)
qed

lemma softmax_forward_launch_fails:
  assumes "softmax_view x = Inr [B, N]" and "N = 0 \<or> TRITON_MAX_TENSOR_NUMEL < N"
  shows "TritonSoftmax_forward y0 x = Inl CompilationError"
  using assms(1)
  by (simp add: TritonSoftmax_forward_def Let_def softmax_launch_fails[OF assms(2)])

lemma row_lane_unique:
  fixes N :: nat
  assumes "c < N" and "lane < N" and "pid * N + lane = r * N + c"
  shows "pid = r \<and> lane = c"
proof -
  from assms(3) have "(pid * N + lane) div N = (r * N + c) div N" by simp
  then have "pid = r" using assms(1,2) by simp
  then show ?thesis using assms(3) by simp
qed

lemma tl_max_replicate_NInf: "tl_max (replicate B NInf) = NInf"
proof (cases B)
  case 0
  then show ?thesis by simp
next
  case (Suc k)
  have "tl_max (NInf # replicate k NInf) = fold fp_max (replicate k NInf) NInf"
    by (rule tl_max.simps)
  also have "\<dots> = NInf" by (rule fold_fp_max_NInf) simp
  finally show ?thesis unfolding Suc replicate_Suc .
qed

subsection \<open>The rows of the softmax wrapper\<close>

lemma prod_list_butlast_last:
  "s \<noteq> [] \<Longrightarrow> prod_list s = prod_list (butlast s) * last (s :: nat list)"
  by (induction s) auto

lemma softmax_view_rows:
  assumes "2 \<le> length (shape x)" and "0 < last (shape x)"
  shows "softmax_view x = Inr [numel x div last (shape x), last (shape x)]"
proof (cases "2 < length (shape x)")
  case True
  have ne: "shape x \<noteq> []" using assms(1) by auto
  have "numel x mod last (shape x) = 0"
    unfolding numel_def prod_list_butlast_last[OF ne] by simp
  then show ?thesis
    using True assms(2) by (simp add: softmax_view_def Let_def reshape_rows_def)
next
  case False
  then have "length (shape x) = 2" using assms(1) by simp
  then obtain B N where s: "shape x = [B, N]"
    by (auto simp: numeral_2_eq_2 length_Suc_conv)
  then show ?thesis using assms(2) by (simp add: softmax_view_def Let_def numel_def)
qed

lemma softmax_launch_apply:
  assumes "0 < N"
  shows "launch g (softmax_kernel xb (stride0 N) (stride0 N) N (softmax_BLOCK_SIZE N)) y0 a =
     (if a div N < g
      then softmax_lanes (load_lanes xb (a div N * N) N (softmax_BLOCK_SIZE N) NInf) ! (a mod N)
      else y0 a)"
proof -
  have s: "stride0 N = N" using assms by (simp add: stride0_def)
  have w: "min N (softmax_BLOCK_SIZE N) = N"
    using next_power_of_2_ge[of N] by (simp add: softmax_BLOCK_SIZE_def)
  have "launch g (softmax_kernel xb N N N (softmax_BLOCK_SIZE N)) y0 a =
     (if a div N < g \<and> a mod N < N
      then softmax_lanes (load_lanes xb (a div N * N) N (softmax_BLOCK_SIZE N) NInf) ! (a mod N)
      else y0 a)"
    by (rule launch_rows[where s = N and w = N
          and V = "\<lambda>r c. softmax_lanes (load_lanes xb (r * N) N (softmax_BLOCK_SIZE N) NInf) ! c"])
       (simp_all add: softmax_kernel_apply w assms)
  then show ?thesis using assms by (simp add: s)
qed

lemma rows_of_read_back:
  "rows_of B N (read_back y (B * N)) = map (\<lambda>r. map (\<lambda>c. y (r * N + c)) [0..<N]) [0..<B]"
proof -
  have "take N (drop (r * N) (map y [0..<B * N])) = map (\<lambda>c. y (r * N + c)) [0..<N]"
    if "r < B" for r
  proof -
    have "r * N + N \<le> B * N"
      using mult_le_mono1[of "Suc r" B N] that by simp
    then have "take N (drop (r * N) (map y [0..<B * N])) = map y [r * N..<r * N + N]"
      by (simp add: drop_map take_map)
    also have "[r * N..<r * N + N] = map (\<lambda>c. r * N + c) [0..<N]"
      using map_add_upt[of "r * N" N] by (simp add: add.commute)
    finally show ?thesis by (simp add: comp_def)
  qed
  then show ?thesis by (simp add: rows_of_def read_back_def)
qed

lemma softmax_row_lanes:
  assumes "0 < N" and "N \<le> Bk"
  shows "map (\<lambda>c. softmax_lanes (load_lanes xb base N Bk NInf) ! c) [0..<N]
     = softmax_lanes (map (\<lambda>c. xb (base + c)) [0..<N])"
proof (rule nth_equalityI)
  show "length (map (\<lambda>c. softmax_lanes (load_lanes xb base N Bk NInf) ! c) [0..<N])
      = length (softmax_lanes (map (\<lambda>c. xb (base + c)) [0..<N]))"
    by simp
next
  fix i assume "i < length (map (\<lambda>c. softmax_lanes (load_lanes xb base N Bk NInf) ! c) [0..<N])"
  then have i: "i < N" by simp
  have "softmax_lanes (map (\<lambda>c. xb (base + c)) [0..<N] @ replicate (Bk - N) NInf) ! i
      = softmax_lanes (map (\<lambda>c. xb (base + c)) [0..<N]) ! i"
    using assms i by (intro softmax_lanes_pad) simp_all
  then show "map (\<lambda>c. softmax_lanes (load_lanes xb base N Bk NInf) ! c) [0..<N] ! i
      = softmax_lanes (map (\<lambda>c. xb (base + c)) [0..<N]) ! i"
    using i assms by (simp add: load_lanes_split)
qed

lemma finite_list_reals: "\<forall>v\<in>set xs. is_finite v \<Longrightarrow> xs = map Fin (map the_real xs)"
proof (induction xs)
  case Nil
  show ?case by simp
next
  case (Cons v xs)
  then obtain a where "v = Fin a" by (cases v) auto
  then show ?case using Cons by simp
qed

lemma torch_clamp_finite: "v \<noteq> NaN \<Longrightarrow> is_finite (torch_clamp lo hi v)"
  by (cases v) simp_all

lemma torch_clamp_idem: "lo \<le> hi \<Longrightarrow> torch_clamp lo hi (torch_clamp lo hi v) = torch_clamp lo hi v"
  by (cases v) (simp_all add: min_def max_def)

lemma sum_list_pos_real:
  fixes es :: "real list"
  assumes "es \<noteq> []" and "\<forall>e\<in>set es. 0 < e"
  shows "0 < sum_list es"
  using assms by (induction es) (auto intro: add_pos_nonneg sum_list_nonneg less_imp_le)

lemma softmax_lanes_finite:
  assumes "as \<noteq> []"
  shows "\<exists>ps. softmax_lanes (map Fin as) = map Fin ps \<and> length ps = length as \<and> (\<forall>p\<in>set ps. 0 < p)"
proof -
  have "tl_max (map Fin as) \<in> set (map Fin as)"
    using assms by (intro tl_max_in_set) simp
  then obtain m where m: "tl_max (map Fin as) = Fin m" by auto
  define es where "es = map (\<lambda>a. exp (a - m)) as"
  define S where "S = sum_list es + 1 / 10 ^ 6"
  have epos: "\<forall>e\<in>set es. 0 < e" by (simp add: es_def)
  have "es \<noteq> []" using assms by (simp add: es_def)
  then have "0 < sum_list es" using epos by (rule sum_list_pos_real)
  then have S: "0 < S" by (simp add: S_def)
  have e1: "map (\<lambda>v. fp_exp (fp_sub v (Fin m))) (map Fin as) = map Fin es"
    by (simp add: es_def)
  have "softmax_lanes (map Fin as) = map (\<lambda>e. fp_div e (Fin S)) (map Fin es)"
    unfolding softmax_lanes_def Let_def m
    using e1 by (simp add: tl_sum_Fin S_def comp_def)
  also have "\<dots> = map Fin (map (\<lambda>e. e / S) es)"
    using S by simp
  finally have "softmax_lanes (map Fin as) = map Fin (map (\<lambda>e. e / S) es)" .
  moreover have "length (map (\<lambda>e. e / S) es) = length as" by (simp add: es_def)
  moreover have "\<forall>p\<in>set (map (\<lambda>e. e / S) es). 0 < p" using S epos by simp
  ultimately show ?thesis by blast
qed

lemma torch_sum_Fin: "torch_sum (map Fin rs) = Fin (sum_list rs)"
  by (induction rs) (simp_all add: torch_sum_def)

lemma sum_list_divide_const:
  fixes T :: real
  shows "sum_list (map (\<lambda>q. q / T) qs) = sum_list qs / T"
  by (induction qs) (simp_all add: add_divide_distrib)

lemma renormalize_finite:
  assumes "ps \<noteq> []" and "\<forall>p\<in>set ps. 0 < p"
  shows "\<exists>qs. renormalize (map Fin ps) = map Fin qs \<and> length qs = length ps
           \<and> (\<forall>q\<in>set qs. 0 < q) \<and> sum_list qs = 1"
proof -
  define ys where "ys = map (\<lambda>p. p + 1 / 10 ^ 8) ps"
  define T where "T = sum_list ys"
  have ypos: "\<forall>y\<in>set ys. 0 < y" using assms(2) by (auto simp: ys_def intro: add_pos_pos)
  have "ys \<noteq> []" using assms(1) by (simp add: ys_def)
  then have T: "0 < T" unfolding T_def using ypos by (rule sum_list_pos_real)
  have y1: "map (\<lambda>v. fp_add v (Fin (1 / 10 ^ 8))) (map Fin ps) = map Fin ys"
    by (simp add: ys_def)
  have "renormalize (map Fin ps) = map (\<lambda>v. fp_div v (Fin T)) (map Fin ys)"
    unfolding renormalize_def Let_def y1 torch_sum_Fin T_def ..
  also have "\<dots> = map Fin (map (\<lambda>y. y / T) ys)" using T by simp
  finally have "renormalize (map Fin ps) = map Fin (map (\<lambda>y. y / T) ys)" .
  moreover have "length (map (\<lambda>y. y / T) ys) = length ps" by (simp add: ys_def)
  moreover have "\<forall>q\<in>set (map (\<lambda>y. y / T) ys). 0 < q" using T ypos by simp
  moreover have "sum_list (map (\<lambda>y. y / T) ys) = 1"
    using T by (simp add: sum_list_divide_const T_def)
  ultimately show ?thesis by blast
qed

lemma rows_of_concat:
  assumes "\<forall>row\<in>set rs. length row = N"
  shows "rows_of (length rs) N (concat rs) = rs"
  using assms
proof (induction rs)
  case Nil
  show ?case by (simp add: rows_of_def)
next
  case (Cons row rs)
  have len: "length row = N" using Cons.prems by simp
  have "rows_of (length (row # rs)) N (concat (row # rs))
      = map (\<lambda>r. take N (drop (r * N) (row @ concat rs))) (0 # map Suc [0..<length rs])"
    by (simp add: rows_of_def upt_conv_Cons map_Suc_upt del: upt_Suc)
  also have "\<dots> = row # map (\<lambda>r. take N (drop (r * N) (concat rs))) [0..<length rs]"
    using len by (simp add: comp_def)
  also have "\<dots> = row # rs"
    using Cons by (simp add: rows_of_def)
  finally show ?case .
qed

lemma length_concat_rows:
  "\<forall>row\<in>set rs. length row = N \<Longrightarrow> length (concat rs) = length rs * N"
  by (induction rs) simp_all

lemma softmax_forward_rows:
  assumes wf: "wf_tensor x" and dims: "2 \<le> length (shape x)" and N: "0 < last (shape x)"
    and NT: "last (shape x) \<le> TRITON_MAX_TENSOR_NUMEL" and nan: "NaN \<notin> set (data x)"
  shows "\<exists>rows. TritonSoftmax_forward y0 x = Inr \<lparr>shape = shape x, data = concat rows\<rparr>
           \<and> length rows = numel x div last (shape x)
           \<and> (\<forall>row\<in>set rows. \<exists>qs. row = map Fin qs \<and> length qs = last (shape x)
                  \<and> (\<forall>q\<in>set qs. 0 < q) \<and> sum_list qs = 1)"
proof -
  define N where "N = last (shape x)"
  define B where "B = numel x div N"
  define xc where "xc = map (torch_clamp (- 100) 100) (data x)"
  define y where "y = launch (softmax_grid B)
      (softmax_kernel (buffer_of xc) (stride0 N) (stride0 N) N (softmax_BLOCK_SIZE N)) y0"
  have Npos: "0 < N" using N by (simp add: N_def)
  have Nmax: "N \<le> TRITON_MAX_TENSOR_NUMEL" using NT by (simp add: N_def)
  have view: "softmax_view x = Inr [B, N]"
    unfolding B_def N_def using dims N by (rule softmax_view_rows)
  have BN: "B * N = numel x" using view by (rule softmax_view_numel)
  have len: "length xc = B * N" using wf by (simp add: xc_def wf_tensor_def BN numel_def)
  have fin: "\<forall>v\<in>set xc. is_finite v"
    using nan by (auto simp: xc_def intro!: torch_clamp_finite)
  have fwd: "TritonSoftmax_forward y0 x =
      Inr \<lparr>shape = shape x, data = concat (map renormalize (rows_of B N (read_back y (B * N))))\<rparr>"
    unfolding y_def xc_def using view Npos Nmax by (rule softmax_forward_launch)
  have ge: "N \<le> softmax_BLOCK_SIZE N"
    unfolding softmax_BLOCK_SIZE_def by (rule next_power_of_2_ge)
  have row: "map (\<lambda>c. y (r * N + c)) [0..<N]
      = softmax_lanes (map (\<lambda>c. buffer_of xc (r * N + c)) [0..<N])" if "r < B" for r
  proof -
    have "y (r * N + c) = softmax_lanes (load_lanes (buffer_of xc) (r * N) N (softmax_BLOCK_SIZE N) NInf) ! c"
      if "c < N" for c
      unfolding y_def softmax_launch_apply[OF Npos] softmax_grid_def
      using that \<open>r < B\<close> by simp
    then have "map (\<lambda>c. y (r * N + c)) [0..<N]
        = map (\<lambda>c. softmax_lanes (load_lanes (buffer_of xc) (r * N) N (softmax_BLOCK_SIZE N) NInf) ! c) [0..<N]"
      by simp
    also have "\<dots> = softmax_lanes (map (\<lambda>c. buffer_of xc (r * N + c)) [0..<N])"
      using Npos ge by (rule softmax_row_lanes)
    finally show ?thesis .
  qed
  have good: "\<exists>qs. renormalize (map (\<lambda>c. y (r * N + c)) [0..<N]) = map Fin qs \<and> length qs = N
      \<and> (\<forall>q\<in>set qs. 0 < q) \<and> sum_list qs = 1" if "r < B" for r
  proof -
    let ?xs = "map (\<lambda>c. buffer_of xc (r * N + c)) [0..<N]"
    have "r * N + N \<le> B * N" using mult_le_mono1[of "Suc r" B N] that by simp
    then have "\<forall>c<N. r * N + c < length xc" using len by simp
    then have "\<forall>v\<in>set ?xs. is_finite v"
      using fin by (auto simp: buffer_of_def)
    then have xs: "?xs = map Fin (map the_real ?xs)" by (rule finite_list_reals)
    have ne: "map the_real ?xs \<noteq> []" using Npos by simp
    obtain ps where ps: "softmax_lanes (map Fin (map the_real ?xs)) = map Fin ps"
      "length ps = length (map the_real ?xs)" "\<forall>p\<in>set ps. 0 < p"
      using softmax_lanes_finite[OF ne] by blast
    have pne: "ps \<noteq> []" using ps(2) Npos by auto
    obtain qs where qs: "renormalize (map Fin ps) = map Fin qs" "length qs = length ps"
      "\<forall>q\<in>set qs. 0 < q" "sum_list qs = 1"
      using renormalize_finite[OF pne ps(3)] by blast
    have "softmax_lanes ?xs = softmax_lanes (map Fin (map the_real ?xs))"
      using xs by (rule arg_cong)
    then have "map (\<lambda>c. y (r * N + c)) [0..<N] = map Fin ps"
      unfolding row[OF that] ps(1) .
    then show ?thesis using qs ps(2) by auto
  qed
  define rows where "rows = map renormalize (rows_of B N (read_back y (B * N)))"
  have rows_eq: "rows = map (\<lambda>r. renormalize (map (\<lambda>c. y (r * N + c)) [0..<N])) [0..<B]"
    by (simp add: rows_def rows_of_read_back comp_def)
  have "length rows = B" by (simp add: rows_eq)
  moreover have "\<forall>row\<in>set rows. \<exists>qs. row = map Fin qs \<and> length qs = N
      \<and> (\<forall>q\<in>set qs. 0 < q) \<and> sum_list qs = 1"
    using good by (auto simp: rows_eq)
  moreover have "TritonSoftmax_forward y0 x = Inr \<lparr>shape = shape x, data = concat rows\<rparr>"
    using fwd by (simp add: rows_def)
  ultimately show ?thesis unfolding B_def N_def by blast
qed

lemma torch_clamp_comp:
  "lo \<le> hi \<Longrightarrow> torch_clamp lo hi \<circ> torch_clamp lo hi = torch_clamp lo hi"
  by (rule ext) (simp add: torch_clamp_idem)

lemma softmax_view_data:
  "softmax_view (x\<lparr>data := d\<rparr>) = softmax_view x"
  by (simp add: softmax_view_def numel_def Let_def)

lemma softmax_forward_clamped:
  "TritonSoftmax_forward y0 (x\<lparr>data := map (torch_clamp (- 100) 100) (data x)\<rparr>)
     = TritonSoftmax_forward y0 x"
proof -
  have c: "torch_clamp (- 100) 100 \<circ> torch_clamp (- 100) 100 = torch_clamp (- 100) 100"
    by (rule torch_clamp_comp) simp
  have d: "map (torch_clamp (- 100) 100)
             (data (x\<lparr>data := map (torch_clamp (- 100) 100) (data x)\<rparr>))
           = map (torch_clamp (- 100) 100) (data x)"
    by (simp add: c)
  have s: "shape (x\<lparr>data := map (torch_clamp (- 100) 100) (data x)\<rparr>) = shape x"
    by simp
  show ?thesis
    unfolding TritonSoftmax_forward_def softmax_view_data Let_def d s ..
qed

section \<open>The claims\<close>

subsection \<open>GELU\<close>

text \<open>
  Claim C7 says that for every input element \<open>x\<close> the GELU kernel stores exactly
  \<open>y = 0.5 * x * (1 + (x * coeff) / (1 + |x * coeff|))\<close>.  On the element
  \<open>100000000376832\<close>, the float32 nearest to \<open>10\<^sup>1\<^sup>4\<close>, the kernel stores not-a-number:
  \<open>x * coeff\<close> is about \<open>3.6 * 10\<^sup>4\<^sup>0\<close>, beyond the float32 range, so the quotient is
  \<open>inf / inf\<close>.
\<close>

theorem gelu_kernel_overflow:
  "gelu_kernel NaN (buffer_of [Fin 100000000376832]) 1 1024 (buffer_of [Fin 0]) 0 0 = NaN"
  by (simp add: gelu_kernel_apply buffer_of_def gelu_lane_large)

text \<open>
  Claim C7, amended.  For every finite input element \<open>x\<close> of magnitude at most
  \<open>2 * 10\<^sup>1\<^sup>3\<close> the GELU kernel stores exactly
  \<open>y = 0.5 * x * (1 + (x * coeff) / (1 + |x * coeff|))\<close> with
  \<open>coeff = sqrt_2_over_pi * (1 + 0.044715 * x\<^sup>2)\<close>, where \<open>sqrt_2_over_pi\<close> is the
  source's constant for the square root of \<open>2/\<pi>\<close>; in particular the kernel maps \<open>0\<close> to
  \<open>0\<close> exactly.  For every finite input element of magnitude at least \<open>3 * 10\<^sup>1\<^sup>3\<close> the
  kernel stores not-a-number.  The element is the one at a valid offset \<open>a\<close> of the block of
  program \<open>pid\<close>.
\<close>

theorem gelu_kernel_formula_in_range:
  assumes "pid * BLOCK_SIZE \<le> a" and "a < pid * BLOCK_SIZE + BLOCK_SIZE"
    and "a < n_elements" and "x a = Fin r"
  shows "(\<bar>r\<bar> \<le> 2 * 10 ^ 13 \<longrightarrow>
            gelu_kernel undef x n_elements BLOCK_SIZE y pid a =
              (let coeff = sqrt_2_over_pi * (1 + 0.044715 * r\<^sup>2)
               in Fin (0.5 * r * (1 + (r * coeff) / (1 + \<bar>r * coeff\<bar>)))))
         \<and> (r = 0 \<longrightarrow> gelu_kernel undef x n_elements BLOCK_SIZE y pid a = Fin 0)
         \<and> (3 * 10 ^ 13 \<le> \<bar>r\<bar> \<longrightarrow>
              gelu_kernel undef x n_elements BLOCK_SIZE y pid a = NaN)"
proof -
  have k: "gelu_kernel undef x n_elements BLOCK_SIZE y pid a = gelu_lane (Fin r)"
    using assms by (simp add: gelu_kernel_apply)
  show ?thesis
    unfolding k Let_def by (intro conjI impI) (simp_all add: gelu_lane_Fin gelu_lane_large)
qed

theorem gelu_kernel_formula_in_range_witness:
  "gelu_kernel NaN (buffer_of [Fin 0, Fin 1, Fin (2 ^ 45)]) 3 1024 (buffer_of []) 0 0 = Fin 0
   \<and> gelu_kernel NaN (buffer_of [Fin 0, Fin 1, Fin (2 ^ 45)]) 3 1024 (buffer_of []) 0 1
       = (let coeff = sqrt_2_over_pi * (1 + 0.044715 * 1\<^sup>2)
          in Fin (0.5 * 1 * (1 + (1 * coeff) / (1 + \<bar>1 * coeff\<bar>))))
   \<and> gelu_kernel NaN (buffer_of [Fin 0, Fin 1, Fin (2 ^ 45)]) 3 1024 (buffer_of []) 0 2 = NaN"
proof -
  let ?x = "buffer_of [Fin 0, Fin 1, Fin (2 ^ 45)]"
  have x: "?x 0 = Fin 0" "?x 1 = Fin 1" "?x 2 = Fin (2 ^ 45)"
    by (simp_all add: buffer_of_def)
  have "gelu_kernel NaN ?x 3 1024 (buffer_of []) 0 0 = Fin 0"
    using gelu_kernel_formula_in_range[of 0 1024 0 3 ?x 0 NaN "buffer_of []", OF _ _ _ x(1)]
    by simp
  moreover have "gelu_kernel NaN ?x 3 1024 (buffer_of []) 0 1
       = (let coeff = sqrt_2_over_pi * (1 + 0.044715 * 1\<^sup>2)
          in Fin (0.5 * 1 * (1 + (1 * coeff) / (1 + \<bar>1 * coeff\<bar>))))"
    using gelu_kernel_formula_in_range[of 0 1024 1 3 ?x 1 NaN "buffer_of []", OF _ _ _ x(2)]
    by simp
  moreover have "gelu_kernel NaN ?x 3 1024 (buffer_of []) 0 2 = NaN"
    using gelu_kernel_formula_in_range[of 0 1024 2 3 ?x "2 ^ 45" NaN "buffer_of []", OF _ _ _ x(3)]
    by simp
  ultimately show ?thesis by blast
qed

subsection \<open>Masked-out lanes\<close>

text \<open>
  Claim C9.  Every store of the three kernels is guarded by the validity mask: an
  instance of the softmax, layer-norm or GELU kernel changes the output buffer at the
  offsets of its valid lanes only.  Every other offset, and so the offset of every
  masked-out lane (lane index at least \<open>n_cols\<close>, \<open>N\<close> or \<open>n_elements\<close>), keeps the
  value it had.
\<close>

theorem kernels_store_only_valid_lanes:
  "((\<forall>c. c < BLOCK_SIZE \<and> c < n_cols \<longrightarrow> a \<noteq> pid * output_row_stride + c) \<longrightarrow>
      softmax_kernel input input_row_stride output_row_stride n_cols BLOCK_SIZE out pid a = out a)
   \<and> ((\<forall>c. c < BLOCK_SIZE \<and> c < N \<longrightarrow> a \<noteq> pid * N + c) \<longrightarrow>
      layer_norm_kernel x w b N e BLOCK_SIZE out pid a = out a)
   \<and> ((\<forall>c. c < BLOCK_SIZE \<and> pid * BLOCK_SIZE + c < n_elements \<longrightarrow> a \<noteq> pid * BLOCK_SIZE + c) \<longrightarrow>
      gelu_kernel undef x n_elements BLOCK_SIZE out pid a = out a)"
proof (intro conjI impI)
  assume h: "\<forall>c. c < BLOCK_SIZE \<and> c < n_cols \<longrightarrow> a \<noteq> pid * output_row_stride + c"
  have "\<not> (pid * output_row_stride \<le> a \<and> a < pid * output_row_stride + min n_cols BLOCK_SIZE)"
  proof
    assume c: "pid * output_row_stride \<le> a \<and> a < pid * output_row_stride + min n_cols BLOCK_SIZE"
    then have "a - pid * output_row_stride < BLOCK_SIZE \<and> a - pid * output_row_stride < n_cols"
      by auto
    with h have "a \<noteq> pid * output_row_stride + (a - pid * output_row_stride)" by blast
    with c show False by simp
  qed
  then show "softmax_kernel input input_row_stride output_row_stride n_cols BLOCK_SIZE out pid a = out a"
    by (simp only: softmax_kernel_apply if_False)
next
  assume h: "\<forall>c. c < BLOCK_SIZE \<and> c < N \<longrightarrow> a \<noteq> pid * N + c"
  have "\<not> (pid * N \<le> a \<and> a < pid * N + min N BLOCK_SIZE)"
  proof
    assume c: "pid * N \<le> a \<and> a < pid * N + min N BLOCK_SIZE"
    then have "a - pid * N < BLOCK_SIZE \<and> a - pid * N < N" by auto
    with h have "a \<noteq> pid * N + (a - pid * N)" by blast
    with c show False by simp
  qed
  then show "layer_norm_kernel x w b N e BLOCK_SIZE out pid a = out a"
    by (simp only: layer_norm_kernel_apply if_False)
next
  assume h: "\<forall>c. c < BLOCK_SIZE \<and> pid * BLOCK_SIZE + c < n_elements \<longrightarrow> a \<noteq> pid * BLOCK_SIZE + c"
  have "\<not> (pid * BLOCK_SIZE \<le> a \<and> a < pid * BLOCK_SIZE + BLOCK_SIZE \<and> a < n_elements)"
  proof
    assume c: "pid * BLOCK_SIZE \<le> a \<and> a < pid * BLOCK_SIZE + BLOCK_SIZE \<and> a < n_elements"
    then have "a - pid * BLOCK_SIZE < BLOCK_SIZE \<and> pid * BLOCK_SIZE + (a - pid * BLOCK_SIZE) < n_elements"
      by auto
    with h have "a \<noteq> pid * BLOCK_SIZE + (a - pid * BLOCK_SIZE)" by blast
    with c show False by simp
  qed
  then show "gelu_kernel undef x n_elements BLOCK_SIZE out pid a = out a"
    by (simp only: gelu_kernel_apply if_False)
qed

theorem kernels_store_only_valid_lanes_witness:
  "softmax_kernel (\<lambda>i. Fin 1) 3 3 3 4 (\<lambda>i. Fin 7) 0 3 = Fin 7
   \<and> layer_norm_kernel (\<lambda>i. Fin 2) (\<lambda>i. Fin 1) (\<lambda>i. Fin 0) 3 (1 / 10 ^ 5) 4 (\<lambda>i. Fin 7) 0 3 = Fin 7
   \<and> gelu_kernel NaN (\<lambda>i. Fin 2) 3 4 (\<lambda>i. Fin 7) 0 3 = Fin 7"
  using kernels_store_only_valid_lanes[where BLOCK_SIZE = 4 and n_cols = 3 and a = 3 and pid = 0
      and output_row_stride = 3 and input = "\<lambda>i. Fin 1" and input_row_stride = 3
      and out = "\<lambda>i. Fin 7" and N = 3 and x = "\<lambda>i. Fin 2" and w = "\<lambda>i. Fin 1"
      and b = "\<lambda>i. Fin 0" and e = "1 / 10 ^ 5" and n_elements = 3 and undef = NaN]
  by simp

subsection \<open>The degenerate softmax row\<close>

text \<open>
  Claim C6.  On the degenerate row \<open>[-1000, -1000, -1000]\<close> the softmax wrapper returns
  \<open>[1/3, 1/3, 1/3]\<close>, whatever the uninitialised output memory held: the inputs are
  clamped to \<open>-100\<close>, the kernel divides by the sum guarded with \<^verbatim>\<open>1e-6\<close>, and the
  wrapper adds \<^verbatim>\<open>1e-8\<close> and renormalises.  No entry is not-a-number.
\<close>

theorem softmax_degenerate_row:
  "TritonSoftmax_forward empty_like
     \<lparr>shape = [1, 3], data = [Fin (- 1000), Fin (- 1000), Fin (- 1000)]\<rparr>
     = Inr \<lparr>shape = [1, 3], data = [Fin (1 / 3), Fin (1 / 3), Fin (1 / 3)]\<rparr>"
  by (simp add: TritonSoftmax_forward_def TritonSoftmax_launch_def TRITON_MAX_TENSOR_NUMEL_def
      softmax_view_def Let_def softmax_grid_def
      softmax_BLOCK_SIZE_def next_power_of_2_3 stride0_def launch_def softmax_kernel_def
      tl_arange_def upt_0_4 upt_0_3 tl_load_def buffer_of_def fp_sub_def tl_sum_def
      read_back_def rows_of_def renormalize_def torch_sum_def)

subsection \<open>The zero-variance row of layer normalisation\<close>



subsection \<open>The softmax kernel on one row\<close>

text \<open>
  Claim C4.  For a row with at least one valid column and a block of at least \<open>n_cols\<close>
  lanes, the softmax kernel stores at each valid lane \<open>j\<close> the value
  \<open>exp (x\<^sub>j - max row) / (sum\<^sub>k exp (x\<^sub>k - max row) + 1e-6)\<close>, where the maximum and the sum
  range over the valid lanes of the row only: the lanes filled with \<open>-inf\<close> change
  neither.  On the row \<open>[1, 2, 3]\<close> with block size 4 the stored values are within
  \<open>0.001\<close> of \<open>0.0900\<close>, \<open>0.2447\<close> and \<open>0.6652\<close>.
\<close>

theorem softmax_kernel_formula:
  "(0 < n_cols \<and> n_cols \<le> BLOCK_SIZE \<and> j < n_cols \<longrightarrow>
      softmax_kernel input input_row_stride output_row_stride n_cols BLOCK_SIZE out pid
          (pid * output_row_stride + j) =
        (let row = map (\<lambda>c. input (pid * input_row_stride + c)) [0..<n_cols];
             row_max = tl_max row
         in fp_div (fp_exp (fp_sub (row ! j) row_max))
              (fp_add (tl_sum (map (\<lambda>v. fp_exp (fp_sub v row_max)) row)) (Fin (1 / 10 ^ 6)))))
   \<and> (\<exists>p0 p1 p2.
          softmax_kernel (buffer_of [Fin 1, Fin 2, Fin 3]) input_row_stride output_row_stride
            3 4 out 0 0 = Fin p0
        \<and> softmax_kernel (buffer_of [Fin 1, Fin 2, Fin 3]) input_row_stride output_row_stride
            3 4 out 0 1 = Fin p1
        \<and> softmax_kernel (buffer_of [Fin 1, Fin 2, Fin 3]) input_row_stride output_row_stride
            3 4 out 0 2 = Fin p2
        \<and> \<bar>p0 - 900 / 10000\<bar> \<le> 1 / 1000
        \<and> \<bar>p1 - 2447 / 10000\<bar> \<le> 1 / 1000
        \<and> \<bar>p2 - 6652 / 10000\<bar> \<le> 1 / 1000)"
proof (intro conjI impI)
  assume a: "0 < n_cols \<and> n_cols \<le> BLOCK_SIZE \<and> j < n_cols"
  define row where "row = map (\<lambda>c. input (pid * input_row_stride + c)) [0..<n_cols]"
  have ne: "row \<noteq> []" and jl: "j < length row" using a by (simp_all add: row_def)
  have ld: "load_lanes input (pid * input_row_stride) n_cols BLOCK_SIZE NInf
      = row @ replicate (BLOCK_SIZE - n_cols) NInf"
    using a by (simp add: load_lanes_split row_def)
  have "softmax_kernel input input_row_stride output_row_stride n_cols BLOCK_SIZE out pid
          (pid * output_row_stride + j) = softmax_lanes (row @ replicate (BLOCK_SIZE - n_cols) NInf) ! j"
    using a by (simp add: softmax_kernel_apply ld)
  also have "\<dots> = softmax_lanes row ! j"
    using ne jl by (rule softmax_lanes_pad)
  also have "\<dots> = fp_div (fp_exp (fp_sub (row ! j) (tl_max row)))
              (fp_add (tl_sum (map (\<lambda>v. fp_exp (fp_sub v (tl_max row))) row)) (Fin (1 / 10 ^ 6)))"
    using jl by (rule softmax_lanes_nth)
  finally show "softmax_kernel input input_row_stride output_row_stride n_cols BLOCK_SIZE out pid
          (pid * output_row_stride + j) =
        (let row = map (\<lambda>c. input (pid * input_row_stride + c)) [0..<n_cols];
             row_max = tl_max row
         in fp_div (fp_exp (fp_sub (row ! j) row_max))
              (fp_add (tl_sum (map (\<lambda>v. fp_exp (fp_sub v row_max)) row)) (Fin (1 / 10 ^ 6))))"
    unfolding row_def Let_def .
next
  show "\<exists>p0 p1 p2.
          softmax_kernel (buffer_of [Fin 1, Fin 2, Fin 3]) input_row_stride output_row_stride
            3 4 out 0 0 = Fin p0
        \<and> softmax_kernel (buffer_of [Fin 1, Fin 2, Fin 3]) input_row_stride output_row_stride
            3 4 out 0 1 = Fin p1
        \<and> softmax_kernel (buffer_of [Fin 1, Fin 2, Fin 3]) input_row_stride output_row_stride
            3 4 out 0 2 = Fin p2
        \<and> \<bar>p0 - 900 / 10000\<bar> \<le> 1 / 1000
        \<and> \<bar>p1 - 2447 / 10000\<bar> \<le> 1 / 1000
        \<and> \<bar>p2 - 6652 / 10000\<bar> \<le> 1 / 1000"
    using softmax_scenario_values[of input_row_stride output_row_stride out]
      softmax_scenario_arith[of "exp (- 1)"] exp_minus_one_bounds
    by blast
qed

theorem softmax_kernel_formula_witness:
  "(0 < (3::nat) \<and> (3::nat) \<le> 4 \<and> (2::nat) < 3)
   \<and> softmax_kernel (buffer_of [Fin 1, Fin 2, Fin 3]) 3 3 3 4 (\<lambda>i. NaN) 0 2 =
        fp_div (fp_exp (fp_sub (Fin 3) (Fin 3)))
          (fp_add (tl_sum [fp_exp (fp_sub (Fin 1) (Fin 3)), fp_exp (fp_sub (Fin 2) (Fin 3)),
                           fp_exp (fp_sub (Fin 3) (Fin 3))]) (Fin (1 / 10 ^ 6)))"
proof -
  have row: "map (\<lambda>c. buffer_of [Fin 1, Fin 2, Fin 3] (0 * 3 + c)) [0..<3] = [Fin 1, Fin 2, Fin 3]"
    by (simp add: upt_rec buffer_of_def)
  have h: "0 < (3::nat) \<and> (3::nat) \<le> 4 \<and> (2::nat) < 3" by simp
  have e: "(0::nat) * 3 + 2 = 2" by simp
  have inst: "softmax_kernel (buffer_of [Fin 1, Fin 2, Fin 3]) 3 3 3 4 (\<lambda>i. NaN) 0 (0 * 3 + 2) =
        (let row = map (\<lambda>c. buffer_of [Fin 1, Fin 2, Fin 3] (0 * 3 + c)) [0..<3];
             row_max = tl_max row
         in fp_div (fp_exp (fp_sub (row ! 2) row_max))
              (fp_add (tl_sum (map (\<lambda>v. fp_exp (fp_sub v row_max)) row)) (Fin (1 / 10 ^ 6))))"
    using softmax_kernel_formula[where n_cols = 3 and BLOCK_SIZE = 4 and j = 2 and pid = 0
      and input = "buffer_of [Fin 1, Fin 2, Fin 3]" and input_row_stride = 3
      and output_row_stride = 3 and out = "\<lambda>i. NaN"] h by blast
  have k: "softmax_kernel (buffer_of [Fin 1, Fin 2, Fin 3]) 3 3 3 4 (\<lambda>i. NaN) 0 2 =
        fp_div (fp_exp (fp_sub ([Fin 1, Fin 2, Fin 3] ! 2) (tl_max [Fin 1, Fin 2, Fin 3])))
          (fp_add (tl_sum (map (\<lambda>v. fp_exp (fp_sub v (tl_max [Fin 1, Fin 2, Fin 3])))
             [Fin 1, Fin 2, Fin 3])) (Fin (1 / 10 ^ 6)))"
    using inst unfolding e row Let_def .
  have v: "[Fin 1, Fin 2, Fin 3] ! 2 = Fin 3" "tl_max [Fin 1, Fin 2, Fin 3] = Fin 3"
    by simp_all
  show ?thesis using h unfolding k v by simp
qed

subsection \<open>Layer normalisation of every row\<close>

text \<open>
  Claim C1 says that the layer-norm wrapper normalises every row of the input.  The
  wrapper launches \<open>cdiv M 128\<close> instances for \<open>M\<close> rows while each instance handles one
  row, and every instance reduces over all 128 lanes of its block.  On the two rows
  \<open>[1, 2, 3, 4]\<close> and \<open>[5, 6, 7, 8]\<close> with scale one, bias zero and the output memory
  holding \<open>7\<close>, one instance runs: the second row is left as the memory was, and the first
  row is divided by the square root of \<open>195 + eps\<close>, the 124 masked lanes counting with
  \<open>(0 - mean)\<^sup>2\<close> each, where the variance of the row is \<open>1.25\<close>.
\<close>

theorem layer_norm_second_row_unwritten:
  "TritonLayerNorm_forward (\<lambda>i. Fin 7) (TritonLayerNorm_init [4] (1 / 10 ^ 5))
     \<lparr>shape = [2, 4], data = [Fin 1, Fin 2, Fin 3, Fin 4, Fin 5, Fin 6, Fin 7, Fin 8]\<rparr>
   = Inr \<lparr>shape = [2, 4],
         data = [Fin (- (3 / 2) * (1 / sqrt (195 + 1 / 10 ^ 5))),
                 Fin (- (1 / 2) * (1 / sqrt (195 + 1 / 10 ^ 5))),
                 Fin (1 / 2 * (1 / sqrt (195 + 1 / 10 ^ 5))),
                 Fin (3 / 2 * (1 / sqrt (195 + 1 / 10 ^ 5))),
                 Fin 7, Fin 7, Fin 7, Fin 7]\<rparr>"
proof -
  define self where "self = TritonLayerNorm_init [4] (1 / 10 ^ 5)"
  define x where
    "x = \<lparr>shape = [2, 4], data = [Fin 1, Fin 2, Fin 3, Fin 4, Fin 5, Fin 6, Fin 7, Fin 8]\<rparr>"
  have ns: "normalized_shape self = [4]" by (simp add: self_def TritonLayerNorm_init_def)
  have n: "numel x = 8" and sh: "shape x = [2, 4]" by (simp_all add: x_def numel_def)
  have rows: "\<And>j. j < 4 \<Longrightarrow> layer_norm_row self x 4 0 ! j
      = Fin (([1, 2, 3, 4] ! j - 5 / 2) * (1 / sqrt (195 + 1 / 10 ^ 5)))"
    unfolding self_def x_def by (rule layer_norm_two_rows_lanes)
  have "TritonLayerNorm_forward (\<lambda>i. Fin 7) self x =
     Inr \<lparr>shape = shape x,
          data = map (\<lambda>a. if a div last (normalized_shape self)
                              < layer_norm_grid (numel x div last (normalized_shape self))
                            \<and> a mod last (normalized_shape self)
                              < min (last (normalized_shape self)) layer_norm_BLOCK_SIZE
                          then layer_norm_row self x (last (normalized_shape self))
                                 (a div last (normalized_shape self))
                               ! (a mod last (normalized_shape self))
                          else Fin 7) [0..<numel x]\<rparr>"
    by (rule layer_norm_forward_data) (simp_all add: ns n sh py_suffix_def)
  then have "TritonLayerNorm_forward (\<lambda>i. Fin 7) self x
   = Inr \<lparr>shape = [2, 4],
         data = [Fin (- (3 / 2) * (1 / sqrt (195 + 1 / 10 ^ 5))),
                 Fin (- (1 / 2) * (1 / sqrt (195 + 1 / 10 ^ 5))),
                 Fin (1 / 2 * (1 / sqrt (195 + 1 / 10 ^ 5))),
                 Fin (3 / 2 * (1 / sqrt (195 + 1 / 10 ^ 5))),
                 Fin 7, Fin 7, Fin 7, Fin 7]\<rparr>"
    unfolding ns n sh upt_0_8
    by (simp add: layer_norm_grid_2 layer_norm_BLOCK_SIZE_def rows)
  then show ?thesis unfolding self_def x_def .
qed

subsection \<open>Validation in the layer-norm wrapper\<close>

text \<open>
  Claim C2 says that the layer-norm wrapper fails fast when the trailing dimensions
  differ from the normalized shape or when the block size is smaller than the row length.
  The second half does not hold: with a row length of 129 and the block size of 128 the
  call returns a tensor, whose column 128 is the uninitialised output memory.
\<close>

theorem layer_norm_no_block_size_check:
  "layer_norm_BLOCK_SIZE < 129
   \<and> \<not> isl (TritonLayerNorm_forward (buffer_of []) (TritonLayerNorm_init [129] (1 / 10 ^ 5))
              \<lparr>shape = [1, 129], data = replicate 129 (Fin 0)\<rparr>)
   \<and> data (projr (TritonLayerNorm_forward (buffer_of []) (TritonLayerNorm_init [129] (1 / 10 ^ 5))
              \<lparr>shape = [1, 129], data = replicate 129 (Fin 0)\<rparr>)) ! 128 = NaN"
proof -
  define self where "self = TritonLayerNorm_init [129] (1 / 10 ^ 5)"
  define x where "x = \<lparr>shape = [1, 129], data = replicate 129 (Fin 0)\<rparr>"
  have ns: "normalized_shape self = [129]" by (simp add: self_def TritonLayerNorm_init_def)
  have n: "numel x = 129" and sh: "shape x = [1, 129]" by (simp_all add: x_def numel_def)
  have fwd: "TritonLayerNorm_forward (buffer_of []) self x =
     Inr \<lparr>shape = shape x,
          data = map (\<lambda>a. if a div last (normalized_shape self)
                              < layer_norm_grid (numel x div last (normalized_shape self))
                            \<and> a mod last (normalized_shape self)
                              < min (last (normalized_shape self)) layer_norm_BLOCK_SIZE
                          then layer_norm_row self x (last (normalized_shape self))
                                 (a div last (normalized_shape self))
                               ! (a mod last (normalized_shape self))
                          else buffer_of [] a) [0..<numel x]\<rparr>"
    by (rule layer_norm_forward_data) (simp_all add: ns n sh py_suffix_def)
  have "layer_norm_BLOCK_SIZE < 129
   \<and> \<not> isl (TritonLayerNorm_forward (buffer_of []) self x)
   \<and> data (projr (TritonLayerNorm_forward (buffer_of []) self x)) ! 128 = NaN"
    unfolding fwd ns n sh
    by (simp add: layer_norm_BLOCK_SIZE_def buffer_of_def)
  then show ?thesis unfolding self_def x_def .
qed

text \<open>
  Claim C2, amended.  The call fails with the assertion error, before any launch, exactly
  when the trailing dimensions of the input (the slice
  \<^verbatim>\<open>x.shape[-len(normalized_shape):]\<close>) differ from the normalized shape; the block size
  is not validated.
\<close>

theorem layer_norm_assertion_iff:
  "(TritonLayerNorm_forward y0 self x = Inl AssertionError) =
   (py_suffix (shape x) (length (normalized_shape self)) \<noteq> normalized_shape self)"
  by (simp add: TritonLayerNorm_forward_def reshape_rows_def Let_def split: sum.splits prod.splits)

subsection \<open>The launch configuration of the softmax wrapper\<close>

text \<open>
  Claim C10 says that for every input tensor the launch of the softmax wrapper gives every
  valid lane of every row to exactly one program.  The wrapper passes \<^verbatim>\<open>x.stride(0)\<close> and
  \<^verbatim>\<open>y.stride(0)\<close> as the row strides, and the kernel takes the columns of a row at
  consecutive addresses.  For a transposed \<open>3 \<times> 2\<close> matrix, whose six elements lie column
  after column, both strides are 1: the launch has three programs of two lanes, programs
  0 and 1 both store to address 1, and addresses 4 and 5, the second column of rows 1
  and 2, are stored to by no program and keep the content of the uninitialised output,
  here 7.
\<close>

theorem softmax_launch_transposed:
  "TritonSoftmax_launch (buffer_of (replicate 6 (Fin 7))) (buffer_of (replicate 6 (Fin 0))) 1 1 3 2
     = Inr (launch 3 (softmax_kernel (buffer_of (replicate 6 (Fin 0))) 1 1 2 2)
              (buffer_of (replicate 6 (Fin 7))))
   \<and> launch 3 (softmax_kernel (buffer_of (replicate 6 (Fin 0))) 1 1 2 2)
        (buffer_of (replicate 6 (Fin 7))) 4 = Fin 7
   \<and> launch 3 (softmax_kernel (buffer_of (replicate 6 (Fin 0))) 1 1 2 2)
        (buffer_of (replicate 6 (Fin 7))) 5 = Fin 7
   \<and> softmax_kernel (buffer_of (replicate 6 (Fin 0))) 1 1 2 2
        (buffer_of (replicate 6 (Fin 7))) 0 1 = Fin (1 / (2 + 1 / 10 ^ 6))
   \<and> softmax_kernel (buffer_of (replicate 6 (Fin 0))) 1 1 2 2
        (buffer_of (replicate 6 (Fin 7))) 1 1 = Fin (1 / (2 + 1 / 10 ^ 6))"
proof -
  define x0 where "x0 = buffer_of (replicate 6 (Fin 0))"
  define y0 where "y0 = buffer_of (replicate 6 (Fin 7))"
  define K where "K = softmax_kernel x0 1 1 2 2"
  have b: "softmax_BLOCK_SIZE 2 = 2"
    by (simp add: softmax_BLOCK_SIZE_def next_power_of_2_def)
  have c1: "TritonSoftmax_launch y0 x0 1 1 3 2 = Inr (launch 3 K y0)"
    by (simp add: TritonSoftmax_launch_def b TRITON_MAX_TENSOR_NUMEL_def softmax_grid_def K_def)
  have k: "K out pid a =
      (if pid \<le> a \<and> a < pid + 2
       then softmax_lanes (load_lanes x0 pid 2 2 NInf) ! (a - pid) else out a)" for out pid a
    unfolding K_def by (simp add: softmax_kernel_apply)
  have lanes: "softmax_lanes (load_lanes x0 pid 2 2 NInf) ! 1 = Fin (1 / (2 + 1 / 10 ^ 6))"
    "softmax_lanes (load_lanes x0 pid 2 2 NInf) ! 0 = Fin (1 / (2 + 1 / 10 ^ 6))"
    if "pid < 3" for pid
    using that
    by (simp_all add: load_lanes_def upt_0_2 x0_def buffer_of_def softmax_lanes_def Let_def
        fp_sub_def tl_sum_def)
  have l: "launch 3 K y0 = K (K (K y0 0) 1) 2"
    by (simp add: launch_def upt_0_3)
  have y: "y0 4 = Fin 7" "y0 5 = Fin 7" by (simp_all add: y0_def buffer_of_def)
  have c2: "launch 3 K y0 4 = Fin 7" unfolding l by (simp add: k y)
  have c3: "launch 3 K y0 5 = Fin 7" unfolding l by (simp add: k y)
  have c4: "K y0 0 1 = Fin (1 / (2 + 1 / 10 ^ 6))"
    using lanes(1)[of 0] by (simp add: k)
  have c5: "K y0 1 1 = Fin (1 / (2 + 1 / 10 ^ 6))"
    using lanes(2)[of 1] by (simp add: k)
  show ?thesis
    using c1 c2 c3 c4 c5 unfolding K_def x0_def y0_def by blast
qed

text \<open>
  Claim C10, amended.  For every contiguous input tensor whose two-dimensional view
  \<open>[B, N]\<close> has between 1 and \<^verbatim>\<open>TRITON_MAX_TENSOR_NUMEL\<close> columns, the softmax wrapper
  launches the softmax kernel with the row stride \<open>N\<close>, with a grid of \<open>B\<close> instances, one
  per row (\<open>B\<close> times \<open>N\<close> is the number of elements), and with \<open>BLOCK_SIZE\<close> the least
  power of two that is at least \<open>N\<close>; so every valid lane of every row is the lane of
  exactly one instance.  For a row length of 0, or one beyond
  \<^verbatim>\<open>TRITON_MAX_TENSOR_NUMEL\<close>, the launch does not compile.
\<close>

theorem softmax_launch_contiguous:
  assumes "softmax_view x = Inr [B, N]"
  shows "(0 < N \<and> N \<le> TRITON_MAX_TENSOR_NUMEL \<longrightarrow>
           TritonSoftmax_forward y0 x =
             Inr \<lparr>shape = shape x,
                  data = concat (map renormalize (rows_of B N (read_back
                    (launch (softmax_grid B)
                       (softmax_kernel (buffer_of (map (torch_clamp (- 100) 100) (data x)))
                          (stride0 N) (stride0 N) N (softmax_BLOCK_SIZE N)) y0) (B * N))))\<rparr>
           \<and> stride0 N = N
           \<and> (\<exists>k. softmax_BLOCK_SIZE N = 2 ^ k)
           \<and> (\<forall>r<B. \<forall>c<N. \<exists>!(pid, lane).
                 pid < softmax_grid B \<and> lane < softmax_BLOCK_SIZE N \<and> lane < N
                 \<and> pid * stride0 N + lane = r * stride0 N + c))
         \<and> (N = 0 \<or> TRITON_MAX_TENSOR_NUMEL < N \<longrightarrow>
              TritonSoftmax_forward y0 x = Inl CompilationError)
         \<and> B * N = numel x
         \<and> softmax_grid B = B
         \<and> N \<le> softmax_BLOCK_SIZE N
         \<and> (\<forall>m. N \<le> 2 ^ m \<longrightarrow> softmax_BLOCK_SIZE N \<le> 2 ^ m)"
proof -
  have ge: "N \<le> softmax_BLOCK_SIZE N"
    unfolding softmax_BLOCK_SIZE_def by (rule next_power_of_2_ge)
  have least: "\<forall>m. N \<le> 2 ^ m \<longrightarrow> softmax_BLOCK_SIZE N \<le> 2 ^ m"
    unfolding softmax_BLOCK_SIZE_def by (intro allI impI next_power_of_2_least)
  have fails: "N = 0 \<or> TRITON_MAX_TENSOR_NUMEL < N \<longrightarrow>
      TritonSoftmax_forward y0 x = Inl CompilationError"
    using assms by (intro impI softmax_forward_launch_fails)
  have ok: "TritonSoftmax_forward y0 x =
             Inr \<lparr>shape = shape x,
                  data = concat (map renormalize (rows_of B N (read_back
                    (launch (softmax_grid B)
                       (softmax_kernel (buffer_of (map (torch_clamp (- 100) 100) (data x)))
                          (stride0 N) (stride0 N) N (softmax_BLOCK_SIZE N)) y0) (B * N))))\<rparr>
           \<and> stride0 N = N
           \<and> (\<exists>k. softmax_BLOCK_SIZE N = 2 ^ k)
           \<and> (\<forall>r<B. \<forall>c<N. \<exists>!(pid, lane).
                 pid < softmax_grid B \<and> lane < softmax_BLOCK_SIZE N \<and> lane < N
                 \<and> pid * stride0 N + lane = r * stride0 N + c)"
    if n: "0 < N \<and> N \<le> TRITON_MAX_TENSOR_NUMEL"
  proof (intro conjI allI impI)
    have n1: "0 < N" and n2: "N \<le> TRITON_MAX_TENSOR_NUMEL" using n by blast+
    show "TritonSoftmax_forward y0 x =
           Inr \<lparr>shape = shape x,
                data = concat (map renormalize (rows_of B N (read_back
                  (launch (softmax_grid B)
                     (softmax_kernel (buffer_of (map (torch_clamp (- 100) 100) (data x)))
                        (stride0 N) (stride0 N) N (softmax_BLOCK_SIZE N)) y0) (B * N))))\<rparr>"
      using assms n1 n2 by (rule softmax_forward_launch)
    show s: "stride0 N = N" using n1 by (simp add: stride0_def)
    show "\<exists>k. softmax_BLOCK_SIZE N = 2 ^ k"
      unfolding softmax_BLOCK_SIZE_def using n1 by (rule next_power_of_2_power)
    show "\<exists>!(pid, lane). pid < softmax_grid B \<and> lane < softmax_BLOCK_SIZE N \<and> lane < N
               \<and> pid * stride0 N + lane = r * stride0 N + c" if "r < B" "c < N" for r c
    proof (rule ex1I[of _ "(r, c)"])
      show "case (r, c) of (pid, lane) \<Rightarrow> pid < softmax_grid B \<and> lane < softmax_BLOCK_SIZE N
          \<and> lane < N \<and> pid * stride0 N + lane = r * stride0 N + c"
        using that ge by (simp add: softmax_grid_def)
    next
      fix pl
      assume h: "case pl of (pid, lane) \<Rightarrow> pid < softmax_grid B \<and> lane < softmax_BLOCK_SIZE N
          \<and> lane < N \<and> pid * stride0 N + lane = r * stride0 N + c"
      obtain pid lane where pl: "pl = (pid, lane)" by (cases pl)
      have "lane < N" "pid * N + lane = r * N + c" using h by (simp_all add: pl s)
      then have "pid = r \<and> lane = c" using that(2) by (intro row_lane_unique)
      then show "pl = (r, c)" by (simp add: pl)
    qed
  qed
  have num: "B * N = numel x" using assms by (rule softmax_view_numel)
  have g: "softmax_grid B = B" by (simp add: softmax_grid_def)
  show ?thesis
    apply (rule conjI)
     apply (rule impI)
     apply (erule ok)
    apply (rule conjI)
     apply (rule fails)
    apply (rule conjI)
     apply (rule num)
    apply (rule conjI)
     apply (rule g)
    apply (rule conjI)
     apply (rule ge)
    apply (rule least)
    done
qed

theorem softmax_launch_contiguous_witness:
  "softmax_view \<lparr>shape = [2, 3], data = replicate 6 (Fin 0)\<rparr> = Inr [2, 3]
   \<and> (0::nat) < 3 \<and> 3 \<le> TRITON_MAX_TENSOR_NUMEL
   \<and> softmax_grid 2 = 2 \<and> softmax_BLOCK_SIZE 3 = 4 \<and> stride0 3 = 3
   \<and> (\<exists>!(pid, lane). pid < softmax_grid 2 \<and> lane < softmax_BLOCK_SIZE 3 \<and> lane < 3
          \<and> pid * stride0 3 + lane = 1 * stride0 3 + 2)
   \<and> softmax_view \<lparr>shape = [2, 0], data = []\<rparr> = Inr [2, 0]
   \<and> TritonSoftmax_forward (buffer_of []) \<lparr>shape = [2, 0], data = []\<rparr> = Inl CompilationError"
proof -
  have v: "softmax_view \<lparr>shape = [2, 3], data = replicate 6 (Fin 0)\<rparr> = Inr [2, 3]"
    by (simp add: softmax_view_def)
  have n1: "(0::nat) < 3" by simp
  have n2: "3 \<le> TRITON_MAX_TENSOR_NUMEL" by (simp add: TRITON_MAX_TENSOR_NUMEL_def)
  note t = softmax_launch_contiguous[OF v, of "buffer_of []"]
  note ok = mp[OF t[THEN conjunct1] conjI[OF n1 n2]]
  have s: "stride0 3 = 3" by (rule ok[THEN conjunct2, THEN conjunct1])
  have cov: "\<forall>r<2. \<forall>c<3. \<exists>!(pid, lane). pid < softmax_grid 2 \<and> lane < softmax_BLOCK_SIZE 3 \<and> lane < 3
          \<and> pid * stride0 3 + lane = r * stride0 3 + c"
    by (rule ok[THEN conjunct2, THEN conjunct2, THEN conjunct2])
  have u: "\<exists>!(pid, lane). pid < softmax_grid 2 \<and> lane < softmax_BLOCK_SIZE 3 \<and> lane < 3
          \<and> pid * stride0 3 + lane = 1 * stride0 3 + 2"
    by (rule cov[rule_format, of 1 2]) simp_all
  have g: "softmax_grid 2 = 2"
    by (rule t[THEN conjunct2, THEN conjunct2, THEN conjunct2, THEN conjunct1])
  have b: "softmax_BLOCK_SIZE 3 = 4"
    by (simp add: softmax_BLOCK_SIZE_def next_power_of_2_3)
  have v0: "softmax_view \<lparr>shape = [2, 0], data = []\<rparr> = Inr [2, 0]"
    by (simp add: softmax_view_def)
  have z: "(0::nat) = 0 \<or> TRITON_MAX_TENSOR_NUMEL < 0" by simp
  have f: "TritonSoftmax_forward (buffer_of []) \<lparr>shape = [2, 0], data = []\<rparr> = Inl CompilationError"
    by (rule mp[OF softmax_launch_contiguous[OF v0, of "buffer_of []", THEN conjunct2, THEN conjunct1] z])
  show ?thesis
    using v n1 n2 g b s u v0 f by (intro conjI)
qed

subsection \<open>Rows without valid columns\<close>

text \<open>
  Claim C5 says that for a row with zero valid columns the softmax path returns a finite
  value for the row and does not crash.  On an input of more than two dimensions whose
  last dimension is zero the wrapper raises a runtime error, at \<^verbatim>\<open>x.view(-1, 0)\<close>.
\<close>

theorem softmax_zero_width_raises:
  "TritonSoftmax_forward (buffer_of []) \<lparr>shape = [2, 3, 0], data = []\<rparr> = Inl RuntimeError"
  by (simp add: TritonSoftmax_forward_def softmax_view_def reshape_rows_def numel_def)

text \<open>
  Claim C5, amended.  For \<open>n_cols = 0\<close> an instance of the softmax kernel stores nothing:
  the output buffer keeps what it held, so no not-a-number is written and no uniform or
  zero default either, although every lane the instance computes is not-a-number
  (\<open>-inf - -inf\<close>).  The wrapper raises a runtime error when the input has more than two
  dimensions and a last dimension of zero.
\<close>

theorem softmax_zero_columns:
  "softmax_kernel input input_row_stride output_row_stride 0 BLOCK_SIZE out pid = out
   \<and> (j < BLOCK_SIZE \<longrightarrow>
        softmax_lanes (load_lanes input (pid * input_row_stride) 0 BLOCK_SIZE NInf) ! j = NaN)
   \<and> (2 < length (shape x) \<and> last (shape x) = 0 \<longrightarrow>
        TritonSoftmax_forward empty_like x = Inl RuntimeError)"
proof (intro conjI impI)
  show "softmax_kernel input input_row_stride output_row_stride 0 BLOCK_SIZE out pid = out"
    by (rule ext) (auto simp: softmax_kernel_apply)
next
  assume j: "j < BLOCK_SIZE"
  have ld: "load_lanes input (pid * input_row_stride) 0 BLOCK_SIZE NInf = replicate BLOCK_SIZE NInf"
    by (simp add: load_lanes_def map_replicate_trivial)
  show "softmax_lanes (load_lanes input (pid * input_row_stride) 0 BLOCK_SIZE NInf) ! j = NaN"
    unfolding ld using j by (simp add: softmax_lanes_nth tl_max_replicate_NInf fp_sub_def)
next
  assume "2 < length (shape x) \<and> last (shape x) = 0"
  then show "TritonSoftmax_forward empty_like x = Inl RuntimeError"
    by (simp add: TritonSoftmax_forward_def softmax_view_def reshape_rows_def Let_def)
qed

theorem softmax_zero_columns_witness:
  "(0::nat) < 4 \<and> 2 < length [1, 1, 0 :: nat] \<and> last [1, 1, 0 :: nat] = 0
   \<and> softmax_kernel (buffer_of []) 0 0 0 4 (buffer_of [Fin 7]) 0 = buffer_of [Fin 7]
   \<and> softmax_lanes (load_lanes (buffer_of []) (0 * 0) 0 4 NInf) ! 0 = NaN
   \<and> TritonSoftmax_forward (buffer_of []) \<lparr>shape = [1, 1, 0], data = []\<rparr> = Inl RuntimeError"
  using softmax_zero_columns[where j = 0 and BLOCK_SIZE = 4 and pid = 0 and input = "buffer_of []"
      and input_row_stride = 0 and output_row_stride = 0 and out = "buffer_of [Fin 7]"
      and x = "\<lparr>shape = [1, 1, 0], data = []\<rparr>" and empty_like = "buffer_of []"]
  by simp

subsection \<open>The softmax wrapper\<close>

text \<open>
  Claim C3 says that for every input tensor of arbitrary leading dimensions the softmax
  wrapper returns a tensor of identical shape whose entries are non-negative and sum to 1
  along the last dimension.  On a one-dimensional tensor the wrapper raises a
  \<^verbatim>\<open>ValueError\<close>, at \<^verbatim>\<open>B, N = x.shape\<close>; and a not-a-number entry passes the clamp and
  makes every entry of its row not-a-number.
\<close>

theorem softmax_forward_failures:
  "TritonSoftmax_forward (buffer_of []) \<lparr>shape = [3], data = [Fin 1, Fin 2, Fin 3]\<rparr>
     = Inl ValueError
   \<and> TritonSoftmax_forward (buffer_of []) \<lparr>shape = [1, 2], data = [NaN, Fin 0]\<rparr>
     = Inr \<lparr>shape = [1, 2], data = [NaN, NaN]\<rparr>"
proof (intro conjI)
  show "TritonSoftmax_forward (buffer_of []) \<lparr>shape = [3], data = [Fin 1, Fin 2, Fin 3]\<rparr>
     = Inl ValueError"
    by (simp add: TritonSoftmax_forward_def softmax_view_def)
  have b: "softmax_BLOCK_SIZE 2 = 2"
    by (simp add: softmax_BLOCK_SIZE_def next_power_of_2_def)
  show "TritonSoftmax_forward (buffer_of []) \<lparr>shape = [1, 2], data = [NaN, Fin 0]\<rparr>
     = Inr \<lparr>shape = [1, 2], data = [NaN, NaN]\<rparr>"
    by (simp add: TritonSoftmax_forward_def TritonSoftmax_launch_def TRITON_MAX_TENSOR_NUMEL_def
      softmax_view_def Let_def softmax_grid_def b stride0_def launch_def softmax_kernel_def
      tl_arange_def upt_0_2 tl_load_def buffer_of_def fp_sub_def tl_sum_def
      read_back_def rows_of_def renormalize_def torch_sum_def)
qed

text \<open>
  Claim C3, amended.  For every contiguous input tensor of at least two dimensions whose
  last dimension has between 1 and \<^verbatim>\<open>TRITON_MAX_TENSOR_NUMEL\<close> entries and that holds no
  not-a-number, the softmax wrapper clamps the inputs to \<open>[-100, 100]\<close> (infinite entries
  included; the result is the one for the clamped tensor), runs the row kernel on the
  clamped rows, adds \<^verbatim>\<open>1e-8\<close> and divides by the row sum, and returns a tensor of
  identical shape whose entries are finite and positive and sum to 1 along the last
  dimension, whatever the uninitialised output memory held.
\<close>

theorem softmax_forward_normalised:
  assumes "wf_tensor x" and "2 \<le> length (shape x)" and "0 < last (shape x)"
    and "last (shape x) \<le> TRITON_MAX_TENSOR_NUMEL" and "NaN \<notin> set (data x)"
  shows "\<exists>y. TritonSoftmax_forward empty_like x = Inr y
           \<and> TritonSoftmax_forward empty_like
                (x\<lparr>data := map (torch_clamp (- 100) 100) (data x)\<rparr>) = Inr y
           \<and> shape y = shape x \<and> wf_tensor y
           \<and> data y = concat (map renormalize
                (rows_of (numel x div last (shape x)) (last (shape x))
                   (read_back
                      (launch (softmax_grid (numel x div last (shape x)))
                         (softmax_kernel (buffer_of (map (torch_clamp (- 100) 100) (data x)))
                            (stride0 (last (shape x))) (stride0 (last (shape x)))
                            (last (shape x)) (softmax_BLOCK_SIZE (last (shape x))))
                         empty_like)
                      (numel x))))
           \<and> (\<forall>v\<in>set (data y). \<exists>p. v = Fin p \<and> 0 < p)
           \<and> (\<forall>row\<in>set (rows_of (numel x div last (shape x)) (last (shape x)) (data y)).
                  torch_sum row = Fin 1)"
proof -
  define N where "N = last (shape x)"
  define B where "B = numel x div N"
  obtain rows where fwd: "TritonSoftmax_forward empty_like x = Inr \<lparr>shape = shape x, data = concat rows\<rparr>"
    and len: "length rows = B"
    and rows: "\<forall>row\<in>set rows. \<exists>qs. row = map Fin qs \<and> length qs = N
                  \<and> (\<forall>q\<in>set qs. 0 < q) \<and> sum_list qs = 1"
    using softmax_forward_rows[OF assms] unfolding B_def N_def by blast
  define y where "y = \<lparr>shape = shape x, data = concat rows\<rparr>"
  have lens: "\<forall>row\<in>set rows. length row = N" using rows by auto
  have view: "softmax_view x = Inr [B, N]"
    unfolding B_def N_def using assms(2,3) by (rule softmax_view_rows)
  have BN: "B * N = numel x" using view by (rule softmax_view_numel)
  have c1: "TritonSoftmax_forward empty_like x = Inr y" using fwd by (simp add: y_def)
  have c2: "TritonSoftmax_forward empty_like
                (x\<lparr>data := map (torch_clamp (- 100) 100) (data x)\<rparr>) = Inr y"
    unfolding softmax_forward_clamped by (rule c1)
  have c3: "shape y = shape x" by (simp add: y_def)
  have "length (concat rows) = numel x"
    using length_concat_rows[OF lens] len BN by simp
  then have c4: "wf_tensor y" by (simp add: wf_tensor_def numel_def y_def)
  have l: "TritonSoftmax_forward empty_like x =
     Inr \<lparr>shape = shape x,
          data = concat (map renormalize (rows_of B N (read_back
            (launch (softmax_grid B)
               (softmax_kernel (buffer_of (map (torch_clamp (- 100) 100) (data x)))
                  (stride0 N) (stride0 N) N (softmax_BLOCK_SIZE N)) empty_like) (B * N))))\<rparr>"
    using view assms(3,4) unfolding N_def[symmetric] by (rule softmax_forward_launch)
  have c5: "data y = concat (map renormalize (rows_of B N (read_back
            (launch (softmax_grid B)
               (softmax_kernel (buffer_of (map (torch_clamp (- 100) 100) (data x)))
                  (stride0 N) (stride0 N) N (softmax_BLOCK_SIZE N)) empty_like) (numel x))))"
    using l c1 unfolding BN by simp
  have c6: "\<forall>v\<in>set (data y). \<exists>p. v = Fin p \<and> 0 < p"
    using rows unfolding y_def by fastforce
  have r: "rows_of B N (data y) = rows"
    using rows_of_concat[OF lens] len by (simp add: y_def)
  have c7: "\<forall>row\<in>set (rows_of B N (data y)). torch_sum row = Fin 1"
    unfolding r using rows by (auto simp: torch_sum_Fin)
  show ?thesis
    using c1 c2 c3 c4 c5 c6 c7 unfolding B_def N_def by (intro exI[of _ y] conjI)
qed

theorem softmax_forward_normalised_witness:
  "wf_tensor \<lparr>shape = [2, 2], data = [Fin 1, Fin 2, PInf, NInf]\<rparr>
   \<and> last [2, 2 :: nat] \<le> TRITON_MAX_TENSOR_NUMEL
   \<and> NaN \<notin> set [Fin 1, Fin 2, PInf, NInf]
   \<and> (\<exists>y. TritonSoftmax_forward (buffer_of []) \<lparr>shape = [2, 2], data = [Fin 1, Fin 2, PInf, NInf]\<rparr> = Inr y
         \<and> shape y = [2, 2] \<and> wf_tensor y
         \<and> (\<forall>v\<in>set (data y). \<exists>p. v = Fin p \<and> 0 < p)
         \<and> (\<forall>row\<in>set (rows_of 2 2 (data y)). torch_sum row = Fin 1))"
proof -
  define X where "X = \<lparr>shape = [2, 2], data = [Fin 1, Fin 2, PInf, NInf]\<rparr>"
  have h: "wf_tensor X" "2 \<le> length (shape X)" "0 < last (shape X)"
    "last (shape X) \<le> TRITON_MAX_TENSOR_NUMEL" "NaN \<notin> set (data X)"
    by (simp_all add: X_def wf_tensor_def TRITON_MAX_TENSOR_NUMEL_def)
  have n: "numel X div last (shape X) = 2" "last (shape X) = 2" "shape X = [2, 2]"
    by (simp_all add: X_def numel_def)
  obtain y where y: "TritonSoftmax_forward (buffer_of []) X = Inr y" "shape y = shape X"
    "wf_tensor y" "\<forall>v\<in>set (data y). \<exists>p. v = Fin p \<and> 0 < p"
    "\<forall>row\<in>set (rows_of (numel X div last (shape X)) (last (shape X)) (data y)).
        torch_sum row = Fin 1"
    using softmax_forward_normalised[OF h, of "buffer_of []"] by (elim exE conjE)
  have y5: "\<forall>row\<in>set (rows_of 2 2 (data y)). torch_sum row = Fin 1"
    using y(5) by (simp add: X_def numel_def)
  have "\<exists>y. TritonSoftmax_forward (buffer_of []) X = Inr y
         \<and> shape y = [2, 2] \<and> wf_tensor y
         \<and> (\<forall>v\<in>set (data y). \<exists>p. v = Fin p \<and> 0 < p)
         \<and> (\<forall>row\<in>set (rows_of 2 2 (data y)). torch_sum row = Fin 1)"
    using y(1) y(2)[unfolded n(3)] y(3) y(4) y5 by (intro exI[of _ y] conjI)
  moreover have "last [2, 2 :: nat] \<le> TRITON_MAX_TENSOR_NUMEL"
    by (simp add: TRITON_MAX_TENSOR_NUMEL_def)
  moreover have "NaN \<notin> set [Fin 1, Fin 2, PInf, NInf]" by simp
  ultimately show ?thesis using h(1) unfolding X_def by (intro conjI)
qed

end
